theory Spec2Isabelle
  imports Complex_Main "HOL-Library.Word" "HOL-Library.While_Combinator" "HOL-Library.AList"
begin

unbundle bit_operations_syntax

section \<open>The leaf-image gate: data model\<close>

text \<open>
  The development embeds \<open>validateLeafImage\<close> of the client-side leaf validator. The
  browser part (\<open>readImageData\<close>: image loading, canvas scaling, \<open>getImageData\<close>) is
  taken as the outcome it delivers: either a thrown value or an \<open>ImageData\<close>
  (\<open>data\<close>, \<open>width\<close>, \<open>height\<close>). Everything after the decode is translated statement by
  statement.

  Conventions of the embedding.
  \<^item> A JavaScript number that holds a count, an index or a sum of bytes is a \<open>nat\<close>; a
    number that holds a measured quantity (a ratio, a hue, a luma value, a standard deviation)
    is a \<open>real\<close>, with exact arithmetic. Rounding of IEEE doubles and of the
    \<open>Float32Array\<close> holding the luma values is not part of the model. The values of
    \<open>isGreenish\<close>, \<open>luma\<close>, \<open>channel_std\<close> and \<open>hueStdTooLow\<close> can therefore differ from
    the source's where a quantity lies within a rounding error of its threshold: the colour
    (41, 50, 41) has saturation exactly 0.18 here and slightly less in doubles, a luma step of
    exactly 10 is slightly more than 10 once stored as a 32-bit float, and a standard deviation
    of exactly 6 or 0.02 computes to slightly less in doubles. The theorems on the decision
    hold for whatever values these features take; the theorems that evaluate a feature do so
    at colours and counts far from every threshold.
  \<^item> A \<open>Uint8Array\<close> is an \<open>8 word list\<close>; the source tests its cells for truthiness,
    which is \<open>\<noteq> 0\<close>. A write past the end of a typed array is ignored, as
    \<open>xs[i := v]\<close> is. All the reads of the source are at indices \<open>y * width + x\<close> with
    \<open>x < width\<close> and \<open>y < height\<close> (or at an interior pixel's four neighbours) in arrays of
    length \<open>width * height\<close>, hence in range.
  \<^item> The \<open>Map\<close> of palette counts is an association list in insertion order.
  \<^item> The explicit stack of the flood fill (\<open>stackX\<close>, \<open>stackY\<close>, \<open>sp\<close>) is a list whose
    head is the top.
  \<^item> The \<open>while\<close> loop of the flood fill is \<open>while_option\<close>: not returning is the value
    \<open>None\<close>, and that the loop returns is a theorem.
\<close>

record LeafValidationResult =
  valid :: bool
  reason :: "string option"

record ImageData =
  data :: "8 word list"
  width :: nat
  height :: nat

text \<open>What a \<open>catch\<close> clause can receive: an \<open>Error\<close> instance with its message, or any
  other thrown value.\<close>

datatype thrown = Error string | NonError

subsection \<open>The per-pixel pass\<close>

record scan =
  gray :: "real list"
  greenMask :: "8 word list"
  hueValues :: "real list"
  greenCount :: nat
  paletteCounts :: "(32 word \<times> nat) list"
  rSum :: nat
  gSum :: nat
  bSum :: nat
  rSq :: nat
  gSq :: nat
  bSq :: nat

text \<open>Lines 127-149, the local function \<open>toHSV\<close>; the \<open>switch (max)\<close> compares with \<open>===\<close>, first against \<open>rn\<close>, then against \<open>gn\<close>.\<close>

definition toHSV :: "real \<Rightarrow> real \<Rightarrow> real \<Rightarrow> real \<times> real \<times> real" where
  "toHSV r g b =
     (let rn = r / 255; gn = g / 255; bn = b / 255;
          mx = max (max rn gn) bn;
          mn = min (min rn gn) bn;
          d = mx - mn;
          h = (if d \<noteq> 0
               then (if mx = rn then (gn - bn) / d + (if gn < bn then 6 else 0)
                     else if mx = gn then (bn - rn) / d + 2
                     else (rn - gn) / d + 4) / 6
               else 0);
          s = (if mx = 0 then 0 else d / mx);
          v = mx
      in (h, s, v))"

text \<open>A byte of the pixel data, as a number.\<close>

definition byte :: "8 word \<Rightarrow> real" where
  "byte c = real (unat c)"

text \<open>Lines 172-174: the hue of a pixel and the greenish (or yellowish) mask predicate.\<close>

definition hue :: "8 word \<Rightarrow> 8 word \<Rightarrow> 8 word \<Rightarrow> real" where
  "hue r g b = fst (toHSV (byte r) (byte g) (byte b))"

definition isGreenish :: "8 word \<Rightarrow> 8 word \<Rightarrow> 8 word \<Rightarrow> bool" where
  "isGreenish r g b =
     (case toHSV (byte r) (byte g) (byte b) of (h, s, v) \<Rightarrow>
        let deg = h * 360 in (deg \<ge> 45 \<and> deg \<le> 160) \<and> s \<ge> 0.18 \<and> v \<ge> 0.12)"

text \<open>Line 157, the BT.601 grayscale value.\<close>

definition luma :: "8 word \<Rightarrow> 8 word \<Rightarrow> 8 word \<Rightarrow> real" where
  "luma r g b = 0.299 * byte r + 0.587 * byte g + 0.114 * byte b"

text \<open>Lines 161-164: four bits per channel, packed.\<close>

definition palette_code :: "8 word \<Rightarrow> 8 word \<Rightarrow> 8 word \<Rightarrow> 32 word" where
  "palette_code r g b =
     (let pr = drop_bit 4 (ucast r) AND 15;
          pg = drop_bit 4 (ucast g) AND 15;
          pb = drop_bit 4 (ucast b) AND 15
      in push_bit 8 pr OR push_bit 4 pg OR pb)"

text \<open>Line 165: \<open>paletteCounts.set(code, (paletteCounts.get(code) ?? 0) + 1)\<close>.\<close>

definition bump :: "32 word \<Rightarrow> (32 word \<times> nat) list \<Rightarrow> (32 word \<times> nat) list" where
  "bump code pc = AList.update code ((case map_of pc code of None \<Rightarrow> 0 | Some c \<Rightarrow> c) + 1) pc"

text \<open>Lines 152-179, the body of the loop over the pixels.\<close>

definition pixel_step :: "8 word \<Rightarrow> 8 word \<Rightarrow> 8 word \<Rightarrow> nat \<Rightarrow> scan \<Rightarrow> scan" where
  "pixel_step r g b idx a =
     (let a1 = a\<lparr> gray := (gray a)[idx := luma r g b],
                  paletteCounts := bump (palette_code r g b) (paletteCounts a),
                  rSum := rSum a + unat r, gSum := gSum a + unat g, bSum := bSum a + unat b,
                  rSq := rSq a + unat r * unat r, gSq := gSq a + unat g * unat g,
                  bSq := bSq a + unat b * unat b \<rparr>
      in if isGreenish r g b
         then a1\<lparr> greenMask := (greenMask a1)[idx := 1],
                  greenCount := greenCount a1 + 1,
                  hueValues := hueValues a1 @ [hue r g b] \<rparr>
         else a1)"

text \<open>The loop \<open>for (p = 0, idx = 0; p < data.length; p += 4, idx++)\<close>. The data of an
  \<open>ImageData\<close> has four bytes per pixel, so the second equation is only reached on the
  empty rest.\<close>

fun pixel_loop :: "8 word list \<Rightarrow> nat \<Rightarrow> scan \<Rightarrow> scan" where
  "pixel_loop (r # g # b # al # rest) idx a = pixel_loop rest (idx + 1) (pixel_step r g b idx a)"
| "pixel_loop rest idx a = a"

text \<open>Lines 116-125, the buffers and accumulators before the loop; \<open>pixels\<close> is \<open>area\<close>.\<close>

definition scan_init :: "nat \<Rightarrow> scan" where
  "scan_init pixels =
     \<lparr> gray = replicate pixels 0, greenMask = replicate pixels 0, hueValues = [],
       greenCount = 0, paletteCounts = [], rSum = 0, gSum = 0, bSum = 0,
       rSq = 0, gSq = 0, bSq = 0 \<rparr>"

definition pixels :: "ImageData \<Rightarrow> nat" where
  "pixels img = width img * height img"

definition scanned :: "ImageData \<Rightarrow> scan" where
  "scanned img = pixel_loop (data img) 0 (scan_init (pixels img))"

text \<open>Line 182.\<close>

definition greenRatio :: "ImageData \<Rightarrow> real" where
  "greenRatio img = real (greenCount (scanned img)) / real (pixels img)"

subsection \<open>Connected components of the green mask\<close>

text \<open>Lines 206-214, the 4-connected neighbours inside the grid, in the order left, right, up, down.\<close>

definition neighbors :: "nat \<Rightarrow> nat \<Rightarrow> nat \<Rightarrow> nat \<Rightarrow> (nat \<times> nat) list" where
  "neighbors w h cx cy =
     (if cx > 0 then [(cx - 1, cy)] else []) @
     (if cx + 1 < w then [(cx + 1, cy)] else []) @
     (if cy > 0 then [(cx, cy - 1)] else []) @
     (if cy + 1 < h then [(cx, cy + 1)] else [])"

text \<open>Lines 216-221, the body of \<open>for (const n of neighbors)\<close>.\<close>

definition visit_neighbor ::
  "nat \<Rightarrow> 8 word list \<Rightarrow> nat \<times> nat \<Rightarrow> 8 word list \<times> (nat \<times> nat) list
     \<Rightarrow> 8 word list \<times> (nat \<times> nat) list" where
  "visit_neighbor w gmask n = (\<lambda>(visited, stack).
     let nx = fst n; ny = snd n; j = ny * w + nx
     in if visited ! j = 0 \<and> gmask ! j \<noteq> 0
        then (visited[j := 1], (nx, ny) # stack)
        else (visited, stack))"

text \<open>Lines 203-222, the body of \<open>while (sp > 0)\<close>: pop, count, push the unvisited masked neighbours.\<close>

definition fill_step ::
  "nat \<Rightarrow> nat \<Rightarrow> 8 word list \<Rightarrow> 8 word list \<times> (nat \<times> nat) list \<times> nat
     \<Rightarrow> 8 word list \<times> (nat \<times> nat) list \<times> nat" where
  "fill_step w h gmask = (\<lambda>(visited, stack, areaComp).
     case stack of
       [] \<Rightarrow> (visited, stack, areaComp)
     | (cx, cy) # rest \<Rightarrow>
         (case fold (visit_neighbor w gmask) (neighbors w h cx cy) (visited, rest) of
            (visited', stack') \<Rightarrow> (visited', stack', areaComp + 1)))"

text \<open>Lines 199-223: the fill from a seed, which is marked and pushed first.\<close>

definition flood_fill ::
  "nat \<Rightarrow> nat \<Rightarrow> 8 word list \<Rightarrow> 8 word list \<Rightarrow> nat \<Rightarrow> nat
     \<Rightarrow> (8 word list \<times> (nat \<times> nat) list \<times> nat) option" where
  "flood_fill w h gmask visited x y =
     while_option (\<lambda>(visited, stack, areaComp). stack \<noteq> []) (fill_step w h gmask)
       (visited[y * w + x := 1], [(x, y)], 0)"

text \<open>Lines 196-224, the body of the two loops over the grid.\<close>

definition seed_step ::
  "nat \<Rightarrow> nat \<Rightarrow> 8 word list \<Rightarrow> nat \<Rightarrow> nat \<Rightarrow> 8 word list \<times> nat
     \<Rightarrow> (8 word list \<times> nat) option" where
  "seed_step w h gmask y x = (\<lambda>(visited, largestComp).
     let i = y * w + x
     in if gmask ! i = 0 \<or> visited ! i \<noteq> 0 then Some (visited, largestComp)
        else (case flood_fill w h gmask visited x y of
                None \<Rightarrow> None
              | Some (visited', stack', areaComp) \<Rightarrow>
                  Some (visited', if areaComp > largestComp then areaComp else largestComp)))"

text \<open>A counted \<open>for\<close> loop whose body may fail to return.\<close>

fun for_each :: "'a list \<Rightarrow> ('a \<Rightarrow> 's \<Rightarrow> 's option) \<Rightarrow> 's \<Rightarrow> 's option" where
  "for_each [] body s = Some s"
| "for_each (i # is) body s = (case body i s of None \<Rightarrow> None | Some s' \<Rightarrow> for_each is body s')"

text \<open>Lines 185-227: \<open>largestComp\<close>.\<close>

definition label_pass :: "nat \<Rightarrow> nat \<Rightarrow> 8 word list \<Rightarrow> nat \<Rightarrow> nat option" where
  "label_pass w h gmask count =
     (if count > 0
      then map_option snd
             (for_each [0..<h] (\<lambda>y. for_each [0..<w] (seed_step w h gmask y))
                (replicate (w * h) 0, 0))
      else Some 0)"

text \<open>\<open>largestComp / pixels\<close>, where \<open>pixels = width * height\<close>.\<close>

definition component_ratio :: "nat \<Rightarrow> nat \<Rightarrow> 8 word list \<Rightarrow> nat \<Rightarrow> real option" where
  "component_ratio w h gmask count =
     map_option (\<lambda>largestComp. real largestComp / real (w * h)) (label_pass w h gmask count)"

definition largestCompRatio :: "ImageData \<Rightarrow> real option" where
  "largestCompRatio img =
     component_ratio (width img) (height img) (greenMask (scanned img)) (greenCount (scanned img))"

subsection \<open>Aggregate features\<close>

text \<open>Lines 231-236: \<open>Math.sqrt(Math.max(0, sq / pixels - mean * mean))\<close>.\<close>

definition channel_std :: "nat \<Rightarrow> nat \<Rightarrow> nat \<Rightarrow> real" where
  "channel_std sm sq n =
     (let mean = real sm / real n in sqrt (max 0 (real sq / real n - mean * mean)))"

text \<open>Line 237.\<close>

definition isVeryUniform :: "ImageData \<Rightarrow> bool" where
  "isVeryUniform img =
     (let a = scanned img; n = pixels img
      in channel_std (rSum a) (rSq a) n < 6 \<and> channel_std (gSum a) (gSq a) n < 6
         \<and> channel_std (bSum a) (bSq a) n < 6)"

text \<open>Lines 240-242.\<close>

definition paletteTooSmall :: "ImageData \<Rightarrow> bool" where
  "paletteTooSmall img =
     (let uniqueBins = length (paletteCounts (scanned img));
          minBins = max 32 (pixels img div 3000)
      in uniqueBins < minBins)"

text \<open>Lines 245-250: the five largest counts, summed, over the number of pixels.\<close>

definition topShare :: "ImageData \<Rightarrow> real" where
  "topShare img =
     (let pc = paletteCounts (scanned img)
      in if length pc > 0
         then (let top = take 5 (rev (sort (map snd pc)));
                   sumTop = foldl (\<lambda>a v. a + v) 0 top
               in real sumTop / real (pixels img))
         else 0)"

text \<open>Lines 253-259; \<open>None\<close> is \<open>undefined\<close>.\<close>

definition hueStdTooLow :: "ImageData \<Rightarrow> bool option" where
  "hueStdTooLow img =
     (let hv = hueValues (scanned img)
      in if length hv > 0
         then (let m = foldl (\<lambda>a v. a + v) 0 hv / real (length hv);
                   vSum = foldl (\<lambda>a v. a + (v - m) * (v - m)) 0 hv / real (length hv);
                   hueStd = sqrt vSum
               in Some (hueStd < 0.02))
         else None)"

text \<open>Lines 267-273, the body of the loops over the interior pixels.\<close>

definition edge_step ::
  "real list \<Rightarrow> 8 word list \<Rightarrow> nat \<Rightarrow> nat \<Rightarrow> nat \<Rightarrow> nat \<times> nat \<Rightarrow> nat \<times> nat" where
  "edge_step gr gmask w y x = (\<lambda>(edgeGreen, interiorGreen).
     let i = y * w + x
     in if gmask ! i = 0 then (edgeGreen, interiorGreen)
        else (let gx = \<bar>gr ! (i + 1) - gr ! i\<bar> + \<bar>gr ! i - gr ! (i - 1)\<bar>;
                  gy = \<bar>gr ! (i + w) - gr ! i\<bar> + \<bar>gr ! i - gr ! (i - w)\<bar>;
                  gmag = gx + gy
              in (if gmag > 10 then edgeGreen + 1 else edgeGreen, interiorGreen + 1)))"

text \<open>Lines 262-275: \<open>(edgeGreen, interiorGreen)\<close>.\<close>

definition edge_counts :: "ImageData \<Rightarrow> nat \<times> nat" where
  "edge_counts img =
     (let a = scanned img; w = width img; h = height img
      in fold (\<lambda>y. fold (edge_step (gray a) (greenMask a) w y) [1..<w - 1]) [1..<h - 1] (0, 0))"

text \<open>Lines 276-277.\<close>

definition edgeDensity :: "ImageData \<Rightarrow> real" where
  "edgeDensity img =
     (case edge_counts img of (edgeGreen, interiorGreen) \<Rightarrow>
        if interiorGreen > 0 then real edgeGreen / real interiorGreen else 0)"

subsection \<open>The decision\<close>

text \<open>Line 109.\<close>

definition aspect :: "ImageData \<Rightarrow> real" where
  "aspect img =
     real (max (width img) (height img)) / real (max 1 (min (width img) (height img)))"

definition reject :: "string \<Rightarrow> LeafValidationResult" where
  "reject msg = \<lparr> valid = False, reason = Some msg \<rparr>"

definition accept :: "LeafValidationResult" where
  "accept = \<lparr> valid = True, reason = None \<rparr>"

text \<open>Lines 291-302.\<close>

definition score :: "ImageData \<Rightarrow> nat" where
  "score img =
     1
     + (if \<not> isVeryUniform img \<or> \<not> paletteTooSmall img then 1 else 0)
     + (if edgeDensity img = 0 \<or> (edgeDensity img \<ge> 0.015 \<and> edgeDensity img \<le> 0.60)
        then 1 else 0)
     + (if hueStdTooLow img = None \<or> hueStdTooLow img = Some False then 1 else 0)
     + (if topShare img \<le> 0.70 then 1 else 0)"

text \<open>A run of the analysis returns the verdict; \<open>soft_score\<close> records the value of the
  local variable \<open>score\<close> when the statements computing it were executed, and is \<open>None\<close> when
  the function returned before them.\<close>

record run =
  verdict :: LeafValidationResult
  soft_score :: "nat option"

text \<open>Lines 304-315.\<close>

definition soft_rules :: "ImageData \<Rightarrow> real \<Rightarrow> run" where
  "soft_rules img lcr =
     (let sc = score img
      in if sc \<ge> 3 then \<lparr> verdict = accept, soft_score = Some sc \<rparr>
         else \<lparr> verdict =
                 (if lcr < 0.12 then reject ''Objek daun terlalu kecil/tersebar.''
                  else if isVeryUniform img
                    then reject ''Gambar terlalu seragam seperti ilustrasi/solid color.''
                  else if paletteTooSmall img \<or> topShare img > 0.70
                    then reject ''Palet warna sangat terbatas seperti ikon/ilustrasi.''
                  else if edgeDensity img > 0.60
                    then reject ''Terlalu banyak garis tegas seperti ikon/teks.''
                  else if edgeDensity img < 0.01
                    then reject ''Tekstur daun tidak terdeteksi (terlalu datar).''
                  else reject ''Gambar tidak menunjukkan ciri daun tanaman yang jelas.''),
               soft_score = Some sc \<rparr>)"

text \<open>A return from a guard: the soft score has not been computed.\<close>

definition guarded :: "string \<Rightarrow> run" where
  "guarded msg = \<lparr> verdict = reject msg, soft_score = None \<rparr>"

text \<open>Lines 100-315, the body of the \<open>try\<close> after the decode. The features are values of the image here; the source computes all of them between the guards of line 106 and line 110 and those of lines 280-288, and none of them can fail but the labelling pass, whose loop might not return.\<close>

definition analyse :: "ImageData \<Rightarrow> run option" where
  "analyse img =
     (let area = width img * height img
      in if area < 8000 then Some (guarded ''Gambar terlalu kecil untuk dianalisis.'')
         else if aspect img > 7 then Some (guarded ''Rasio gambar terlalu ekstrem (tidak wajar).'')
         else (case largestCompRatio img of
                 None \<Rightarrow> None
               | Some lcr \<Rightarrow>
                   if greenRatio img < 0.18
                     then Some (guarded ''Area daun terlalu kecil/Objek bukan daun.'')
                   else if lcr < 0.12
                     then Some (guarded
                       ''Objek daun terlalu kecil/tersebar (bukan satu daun utama).'')
                   else if greenRatio img > 0.995
                     then Some (guarded
                       ''Gambar terlalu dominan satu warna (kemungkinan latar/ilustrasi).'')
                   else Some (soft_rules img lcr)))"

text \<open>Lines 98-320: the decode either threw or delivered an image; the \<open>catch\<close> of lines 316-319.\<close>

definition validateLeafImage :: "thrown + ImageData \<Rightarrow> LeafValidationResult option" where
  "validateLeafImage decoded =
     (case decoded of
        Inl err \<Rightarrow>
          Some (reject (case err of Error message \<Rightarrow> message
                        | NonError \<Rightarrow> ''Gagal memvalidasi gambar.''))
      | Inr img \<Rightarrow> map_option verdict (analyse img))"

section \<open>Regions of a mask\<close>

text \<open>The cells of a \<open>w\<close> by \<open>h\<close> typed array that are set, as coordinates; 4-adjacency;
  the region of a cell is what a path of adjacent set cells reaches from it.\<close>

definition cells :: "nat \<Rightarrow> nat \<Rightarrow> 8 word list \<Rightarrow> (nat \<times> nat) set" where
  "cells w h xs = {(x, y). x < w \<and> y < h \<and> xs ! (y * w + x) \<noteq> 0}"

definition adjacent :: "nat \<times> nat \<Rightarrow> nat \<times> nat \<Rightarrow> bool" where
  "adjacent p q =
     ((snd p = snd q \<and> (fst p = Suc (fst q) \<or> fst q = Suc (fst p)))
      \<or> (fst p = fst q \<and> (snd p = Suc (snd q) \<or> snd q = Suc (snd p))))"

definition links :: "(nat \<times> nat) set \<Rightarrow> ((nat \<times> nat) \<times> (nat \<times> nat)) set" where
  "links M = {(p, q). p \<in> M \<and> q \<in> M \<and> adjacent p q}"

definition region :: "(nat \<times> nat) set \<Rightarrow> nat \<times> nat \<Rightarrow> (nat \<times> nat) set" where
  "region M p = {q. (p, q) \<in> (links M)\<^sup>*}"

definition largest_region :: "(nat \<times> nat) set \<Rightarrow> nat" where
  "largest_region M = (if M = {} then 0 else Max ((\<lambda>p. card (region M p)) ` M))"

inductive_set reach :: "(nat \<times> nat) set \<Rightarrow> (nat \<times> nat) set \<Rightarrow> (nat \<times> nat) set \<Rightarrow> (nat \<times> nat) set"
  for M S V where
    start: "p \<in> S \<Longrightarrow> p \<in> reach M S V"
  | step: "p \<in> reach M S V \<Longrightarrow> adjacent p q \<Longrightarrow> q \<in> M \<Longrightarrow> q \<notin> V \<Longrightarrow> q \<in> reach M S V"

lemma adjacent_sym: "adjacent p q \<Longrightarrow> adjacent q p"
  by (auto simp: adjacent_def)

lemma idx_lt: "x < w \<Longrightarrow> y < h \<Longrightarrow> y * w + x < w * (h::nat)"
proof -
  assume a: "x < w" "y < h"
  then have "y * w + x < y * w + w" by simp
  also have "\<dots> = w * Suc y" by simp
  also have "\<dots> \<le> w * h" using a by (intro mult_le_mono2) simp
  finally show ?thesis .
qed

lemma idx_inj:
  assumes "x < w" "x' < w" "y * w + x = y' * w + (x'::nat)"
  shows "x = x' \<and> y = y'"
proof -
  have "(y * w + x) div w = y" using assms(1) by simp
  moreover have "(y' * w + x') div w = y'" using assms(2) by simp
  moreover have "(y * w + x) div w = (y' * w + x') div w" using assms(3) by simp
  ultimately have "y = y'" by simp
  then show ?thesis using assms(3) by simp
qed

lemma cells_bounded: "cells w h xs \<subseteq> {..<w} \<times> {..<h}"
  by (auto simp: cells_def)

lemma finite_cells: "finite (cells w h xs)"
  by (rule finite_subset [OF cells_bounded]) simp

lemma cells_update:
  assumes "length xs = w * h" "x < w" "y < h"
  shows "cells w h (xs[y * w + x := 1]) = insert (x, y) (cells w h xs)"
proof -
  have lt: "y * w + x < length xs" using assms by (simp add: idx_lt)
  show ?thesis
  proof (rule set_eqI, clarify)
    fix a b
    show "(a, b) \<in> cells w h (xs[y * w + x := 1]) \<longleftrightarrow> (a, b) \<in> insert (x, y) (cells w h xs)"
    proof (cases "b * w + a = y * w + x")
      case True
      then have "a < w \<Longrightarrow> a = x \<and> b = y" using idx_inj [of a w x b y] assms by simp
      then show ?thesis using True lt assms by (auto simp: cells_def)
    next
      case False
      then have "(a, b) \<noteq> (x, y)" by auto
      then show ?thesis using False by (auto simp: cells_def)
    qed
  qed
qed

lemma reach_subset: "reach M S V \<subseteq> S \<union> (M - V)"
proof
  fix p assume "p \<in> reach M S V"
  then show "p \<in> S \<union> (M - V)" by induction auto
qed

lemma reach_empty: "reach M {} V = {}"
proof -
  have "p \<in> reach M {} V \<Longrightarrow> False" for p
    by (induction rule: reach.induct) auto
  then show ?thesis by auto
qed

lemma reach_pop:
  assumes N: "N = {q. adjacent p q \<and> q \<in> M \<and> q \<notin> V}"
  shows "reach M (insert p R) V = insert p (reach M (N \<union> R) (V \<union> N))"
proof (intro equalityI subsetI)
  fix x assume "x \<in> reach M (insert p R) V"
  then show "x \<in> insert p (reach M (N \<union> R) (V \<union> N))"
  proof induction
    case (start x)
    then show ?case by (auto intro: reach.start)
  next
    case (step x q)
    show ?case
    proof (cases "q \<in> N")
      case True
      then show ?thesis by (auto intro: reach.start)
    next
      case False
      with step have "x \<noteq> p" using N by auto
      with step have "x \<in> reach M (N \<union> R) (V \<union> N)" by simp
      then have "q \<in> reach M (N \<union> R) (V \<union> N)"
        using step False by (auto intro: reach.step)
      then show ?thesis by simp
    qed
  qed
next
  fix x assume "x \<in> insert p (reach M (N \<union> R) (V \<union> N))"
  moreover have "p \<in> reach M (insert p R) V" by (auto intro: reach.start)
  moreover have "x \<in> reach M (N \<union> R) (V \<union> N) \<Longrightarrow> x \<in> reach M (insert p R) V"
  proof (induction rule: reach.induct)
    case (start x)
    then show ?case
    proof
      assume "x \<in> N"
      then show ?thesis using N reach.step [OF reach.start, of p "insert p R" x M V] by auto
    next
      assume "x \<in> R"
      then show ?thesis by (auto intro: reach.start)
    qed
  next
    case (step x q)
    then show ?case by (auto intro: reach.step)
  qed
  ultimately show "x \<in> reach M (insert p R) V" by auto
qed

section \<open>The flood fill\<close>

lemma neighbors_set:
  assumes "cx < w" "cy < h"
  shows "set (neighbors w h cx cy) = {q. fst q < w \<and> snd q < h \<and> adjacent (cx, cy) q}"
  using assms by (auto simp: neighbors_def adjacent_def)

lemma neighbors_distinct: "distinct (neighbors w h cx cy)"
  by (auto simp: neighbors_def)

lemma visit_fold:
  assumes "length vs = w * h" "\<forall>n \<in> set ns. fst n < w \<and> snd n < h" "distinct ns"
    and N: "N = {n \<in> set ns. n \<in> cells w h gm \<and> n \<notin> cells w h vs}"
  shows "\<exists>vs' st'. fold (visit_neighbor w gm) ns (vs, st) = (vs', st')
           \<and> length vs' = w * h \<and> cells w h vs' = cells w h vs \<union> N
           \<and> set st' = set st \<union> N \<and> length st' = length st + card N
           \<and> (distinct st \<and> set st \<inter> N = {} \<longrightarrow> distinct st')"
  using assms
proof (induction ns arbitrary: vs st N)
  case Nil
  then show ?case by simp
next
  case (Cons n ns)
  obtain nx ny where n: "n = (nx, ny)" by (cases n)
  have inb: "nx < w" "ny < h" using Cons.prems(2) n by auto
  have notin: "n \<notin> set ns" using Cons.prems(3) by simp
  let ?j = "ny * w + nx"
  let ?N1 = "{m \<in> set ns. m \<in> cells w h gm \<and> m \<notin> cells w h vs}"
  have fin: "finite ?N1" by simp
  show ?case
  proof (cases "vs ! ?j = 0 \<and> gm ! ?j \<noteq> 0")
    case True
    then have nN: "n \<in> cells w h gm" "n \<notin> cells w h vs"
      using inb n by (auto simp: cells_def)
    let ?vs1 = "vs[?j := 1]"
    have c1: "cells w h ?vs1 = insert n (cells w h vs)"
      using cells_update [OF Cons.prems(1) inb] n by simp
    have N1: "?N1 = {m \<in> set ns. m \<in> cells w h gm \<and> m \<notin> cells w h ?vs1}"
      using notin c1 by auto
    have NN: "N = insert n ?N1" using Cons.prems(4) nN by auto
    have nN1: "n \<notin> ?N1" using notin by simp
    from Cons.IH [of ?vs1 ?N1 "n # st"] Cons.prems N1
    obtain vs' st' where r: "fold (visit_neighbor w gm) ns (?vs1, n # st) = (vs', st')"
      "length vs' = w * h" "cells w h vs' = cells w h ?vs1 \<union> ?N1"
      "set st' = set (n # st) \<union> ?N1" "length st' = length (n # st) + card ?N1"
      "distinct (n # st) \<and> set (n # st) \<inter> ?N1 = {} \<longrightarrow> distinct st'"
      by auto
    have step: "fold (visit_neighbor w gm) (n # ns) (vs, st) = (vs', st')"
      using r(1) True n by (simp add: visit_neighbor_def)
    have "card N = Suc (card ?N1)" using NN nN1 fin by simp
    moreover have "distinct st \<and> set st \<inter> N = {} \<longrightarrow> distinct st'"
      using r(6) NN nN1 by auto
    ultimately show ?thesis using step r c1 NN by auto
  next
    case False
    then have nN: "\<not> (n \<in> cells w h gm \<and> n \<notin> cells w h vs)"
      using inb n by (auto simp: cells_def)
    have NN: "N = ?N1" using Cons.prems(4) nN by auto
    from Cons.IH [of vs ?N1 st] Cons.prems
    obtain vs' st' where r: "fold (visit_neighbor w gm) ns (vs, st) = (vs', st')"
      "length vs' = w * h" "cells w h vs' = cells w h vs \<union> ?N1"
      "set st' = set st \<union> ?N1" "length st' = length st + card ?N1"
      "distinct st \<and> set st \<inter> ?N1 = {} \<longrightarrow> distinct st'"
      by auto
    have step: "fold (visit_neighbor w gm) (n # ns) (vs, st) = (vs', st')"
      using r(1) False n by (auto simp add: visit_neighbor_def Let_def)
    show ?thesis using step r NN by auto
  qed
qed

lemma finite_reach: "finite S \<Longrightarrow> finite M \<Longrightarrow> finite (reach M S V)"
  by (rule finite_subset [OF reach_subset]) simp

lemma fill_loop:
  assumes "length vs = w * h" "distinct st" "set st \<subseteq> cells w h vs"
  shows "\<exists>vs'. while_option (\<lambda>(visited, stack, areaComp). stack \<noteq> []) (fill_step w h gm) (vs, st, a)
            = Some (vs', [], a + card (reach (cells w h gm) (set st) (cells w h vs)))
          \<and> length vs' = w * h
          \<and> cells w h vs' = cells w h vs \<union> reach (cells w h gm) (set st) (cells w h vs)"
  using assms
proof (induction "2 * card (cells w h gm - cells w h vs) + length st" arbitrary: vs st a
       rule: less_induct)
  case less
  let ?M = "cells w h gm"
  let ?V = "cells w h vs"
  let ?b = "\<lambda>(visited, stack, areaComp). stack \<noteq> ([] :: (nat \<times> nat) list)"
  show ?case
  proof (cases st)
    case Nil
    then show ?thesis using less.prems
      by (subst while_option_unfold) (simp add: reach_empty)
  next
    case (Cons p rest)
    obtain cx cy where p: "p = (cx, cy)" by (cases p)
    have pV: "p \<in> ?V" using less.prems Cons by simp
    then have inb: "cx < w" "cy < h" using p by (auto simp: cells_def)
    let ?ns = "neighbors w h cx cy"
    let ?N = "{n \<in> set ?ns. n \<in> ?M \<and> n \<notin> ?V}"
    have nsb: "\<forall>n \<in> set ?ns. fst n < w \<and> snd n < h"
      using neighbors_set [OF inb] by simp
    from visit_fold [OF less.prems(1) nsb neighbors_distinct refl, of gm rest]
    obtain vs1 st1 where f: "fold (visit_neighbor w gm) ?ns (vs, rest) = (vs1, st1)"
      "length vs1 = w * h" "cells w h vs1 = ?V \<union> ?N"
      "set st1 = set rest \<union> ?N" "length st1 = length rest + card ?N"
      "distinct rest \<and> set rest \<inter> ?N = {} \<longrightarrow> distinct st1"
      by (elim exE conjE) (rule that)
    have "\<And>q. q \<in> ?M \<Longrightarrow> fst q < w \<and> snd q < h"
      using cells_bounded [of w h gm] by auto
    then have Nadj: "?N = {q. adjacent p q \<and> q \<in> ?M \<and> q \<notin> ?V}"
      using neighbors_set [OF inb] p by auto
    have step: "fill_step w h gm (vs, st, a) = (vs1, st1, a + 1)"
      using f(1) Cons p by (simp add: fill_step_def)
    have restV: "set rest \<subseteq> ?V" "distinct rest" "p \<notin> set rest"
      using less.prems Cons by auto
    have dist1: "distinct st1" using f(6) restV by auto
    have sub1: "set st1 \<subseteq> cells w h vs1" using f(3,4) restV by auto
    have finN: "finite ?N" by simp
    have NsubMV: "?N \<subseteq> ?M - ?V" by auto
    have finMV: "finite (?M - ?V)" using finite_cells by simp
    have cardN: "card ?N \<le> card (?M - ?V)" using card_mono [OF finMV NsubMV] .
    have "?M - cells w h vs1 = (?M - ?V) - ?N" using f(3) by auto
    then have cardM: "card (?M - cells w h vs1) = card (?M - ?V) - card ?N"
      using card_Diff_subset [OF finN NsubMV] by simp
    have meas: "2 * card (?M - cells w h vs1) + length st1 < 2 * card (?M - ?V) + length st"
      using cardM cardN f(5) Cons by simp
    from less.hyps [OF meas f(2) dist1 sub1, of "a + 1"]
    obtain vs' where ih:
      "while_option ?b (fill_step w h gm) (vs1, st1, a + 1)
         = Some (vs', [], a + 1 + card (reach ?M (set st1) (cells w h vs1)))"
      "length vs' = w * h"
      "cells w h vs' = cells w h vs1 \<union> reach ?M (set st1) (cells w h vs1)"
      by blast
    let ?R1 = "reach ?M (?N \<union> set rest) (?V \<union> ?N)"
    have pop: "reach ?M (set st) ?V = insert p ?R1"
      using reach_pop [OF Nadj, of "set rest"] Cons by simp
    have R1eq: "reach ?M (set st1) (cells w h vs1) = ?R1"
      using f(3,4) by (simp add: Un_commute)
    have "p \<notin> ?R1"
      using reach_subset [of ?M "?N \<union> set rest" "?V \<union> ?N"] pV restV(3) by auto
    moreover have "finite ?R1" by (rule finite_reach) (simp_all add: finite_cells)
    ultimately have card: "card (reach ?M (set st) ?V) = Suc (card ?R1)"
      using pop by simp
    have "while_option ?b (fill_step w h gm) (vs, st, a)
            = while_option ?b (fill_step w h gm) (vs1, st1, a + 1)"
      using step Cons by (subst while_option_unfold) simp
    moreover have "cells w h vs' = ?V \<union> reach ?M (set st) ?V"
    proof -
      have "?N \<subseteq> ?R1" by (auto intro: reach.start)
      then have "?V \<union> ?N \<union> ?R1 = ?V \<union> insert p ?R1" using pV by blast
      then show ?thesis using ih(3) R1eq pop f(3) by simp
    qed
    ultimately show ?thesis using ih(1,2) R1eq card by simp
  qed
qed

definition closed_under :: "(nat \<times> nat) set \<Rightarrow> (nat \<times> nat) set \<Rightarrow> bool" where
  "closed_under M V = (\<forall>p \<in> V. \<forall>q \<in> M. adjacent p q \<longrightarrow> q \<in> V)"

lemma sym_links: "sym (links M)"
  by (auto simp: sym_def links_def adjacent_sym)

lemma links_rtrancl_sym: "(p, q) \<in> (links M)\<^sup>* \<Longrightarrow> (q, p) \<in> (links M)\<^sup>*"
  by (rule symD [OF sym_rtrancl [OF sym_links]])

lemma region_self: "p \<in> region M p"
  by (simp add: region_def)

lemma region_subset: "p \<in> M \<Longrightarrow> region M p \<subseteq> M"
proof
  fix q assume "p \<in> M" "q \<in> region M p"
  then have "(p, q) \<in> (links M)\<^sup>*" by (simp add: region_def)
  then show "q \<in> M" using \<open>p \<in> M\<close>
    by (induction rule: rtrancl_induct) (auto simp: links_def)
qed

lemma region_eq: "q \<in> region M p \<Longrightarrow> region M q = region M p"
  unfolding region_def using links_rtrancl_sym [of p q M]
  by (auto intro: rtrancl_trans)

lemma region_closed: "p \<in> M \<Longrightarrow> closed_under M (region M p)"
  unfolding closed_under_def
proof (intro ballI impI)
  fix a q assume "p \<in> M" "a \<in> region M p" "q \<in> M" "adjacent a q"
  then have "a \<in> M" using region_subset [of p M] by blast
  then have "(a, q) \<in> links M" using \<open>q \<in> M\<close> \<open>adjacent a q\<close> by (simp add: links_def)
  then show "q \<in> region M p" using \<open>a \<in> region M p\<close>
    by (auto simp: region_def intro: rtrancl_into_rtrancl)
qed

lemma closed_region_disjoint:
  assumes "closed_under M V" "V \<subseteq> M" "s \<notin> V" "q \<in> region M s"
  shows "q \<notin> V"
proof
  assume "q \<in> V"
  have "(q, s) \<in> (links M)\<^sup>*" using assms(4) links_rtrancl_sym by (simp add: region_def)
  then have "s \<in> V" using \<open>q \<in> V\<close>
  proof (induction rule: rtrancl_induct)
    case base
    then show ?case .
  next
    case (step a b)
    then show ?case using assms(1) by (auto simp: links_def closed_under_def)
  qed
  then show False using assms(3) by simp
qed

lemma reach_region:
  assumes "closed_under M V" "V \<subseteq> M" "s \<in> M" "s \<notin> V"
  shows "reach M {s} (insert s V) = region M s"
proof (intro equalityI subsetI)
  fix q assume "q \<in> reach M {s} (insert s V)"
  then show "q \<in> region M s"
  proof induction
    case (start p)
    then show ?case by (simp add: region_self)
  next
    case (step p q)
    then have "p \<in> M" using region_subset [OF assms(3)] by auto
    then have "(p, q) \<in> links M" using step by (simp add: links_def)
    then show ?case using step.IH by (auto simp: region_def intro: rtrancl_into_rtrancl)
  qed
next
  fix q assume "q \<in> region M s"
  then have "(s, q) \<in> (links M)\<^sup>*" by (simp add: region_def)
  then show "q \<in> reach M {s} (insert s V)"
  proof (induction rule: rtrancl_induct)
    case base
    then show ?case by (simp add: reach.start)
  next
    case (step a b)
    then have b: "b \<in> M" "adjacent a b" by (auto simp: links_def)
    have "b \<in> region M s" using step by (auto simp: region_def intro: rtrancl_into_rtrancl)
    then have "b \<notin> V" using closed_region_disjoint [OF assms(1,2,4)] by simp
    show ?case
    proof (cases "b = s")
      case True
      then show ?thesis by (simp add: reach.start)
    next
      case False
      then show ?thesis using step.IH b \<open>b \<notin> V\<close> by (auto intro: reach.step)
    qed
  qed
qed

definition lmax :: "(nat \<times> nat) set \<Rightarrow> (nat \<times> nat) set \<Rightarrow> nat" where
  "lmax M V = Max (insert 0 ((\<lambda>p. card (region M p)) ` V))"

lemma lmax_Un_region:
  assumes "finite V" "finite (region M s)"
  shows "lmax M (V \<union> region M s) = max (lmax M V) (card (region M s))"
proof -
  let ?f = "\<lambda>p. card (region M p)"
  have "\<And>q. q \<in> region M s \<Longrightarrow> ?f q = card (region M s)"
    by (simp add: region_eq)
  moreover have "s \<in> region M s" by (rule region_self)
  ultimately have "?f ` region M s = {card (region M s)}" by blast
  then have "?f ` (V \<union> region M s) = insert (card (region M s)) (?f ` V)"
    by (simp add: image_Un)
  then have "insert 0 (?f ` (V \<union> region M s)) = insert (card (region M s)) (insert 0 (?f ` V))"
    by (simp add: insert_commute)
  then show ?thesis using assms(1) by (simp add: lmax_def max.commute)
qed

lemma lmax_all: "finite M \<Longrightarrow> lmax M M = largest_region M"
  by (simp add: lmax_def largest_region_def)

lemma closed_Un: "closed_under M A \<Longrightarrow> closed_under M B \<Longrightarrow> closed_under M (A \<union> B)"
  by (auto simp: closed_under_def)

definition labelled ::
  "nat \<Rightarrow> nat \<Rightarrow> 8 word list \<Rightarrow> (nat \<times> nat) set \<Rightarrow> 8 word list \<times> nat \<Rightarrow> bool" where
  "labelled w h gm C s =
     (case s of (vs, lg) \<Rightarrow>
        length vs = w * h \<and> cells w h vs \<subseteq> cells w h gm
        \<and> closed_under (cells w h gm) (cells w h vs)
        \<and> lg = lmax (cells w h gm) (cells w h vs)
        \<and> C \<inter> cells w h gm \<subseteq> cells w h vs)"

lemma seed_step_labelled:
  assumes "labelled w h gm C s" "x < w" "y < h"
  shows "\<exists>s'. seed_step w h gm y x s = Some s' \<and> labelled w h gm (insert (x, y) C) s'"
proof -
  obtain vs lg where s: "s = (vs, lg)" by (cases s)
  let ?M = "cells w h gm"
  let ?V = "cells w h vs"
  let ?i = "y * w + x"
  from assms(1) s have L: "length vs = w * h" "?V \<subseteq> ?M" "closed_under ?M ?V"
    "lg = lmax ?M ?V" "C \<inter> ?M \<subseteq> ?V"
    by (simp_all add: labelled_def)
  show ?thesis
  proof (cases "gm ! ?i = 0 \<or> vs ! ?i \<noteq> 0")
    case True
    then have "(x, y) \<in> ?M \<longrightarrow> (x, y) \<in> ?V" using assms(2,3) by (auto simp: cells_def)
    then have "labelled w h gm (insert (x, y) C) s"
      using L s by (auto simp: labelled_def)
    moreover have "seed_step w h gm y x s = Some s"
      using True s by (auto simp: seed_step_def Let_def)
    ultimately show ?thesis by simp
  next
    case False
    then have sM: "(x, y) \<in> ?M" and sV: "(x, y) \<notin> ?V"
      using assms(2,3) by (auto simp: cells_def)
    let ?vs1 = "vs[?i := 1]"
    have c1: "cells w h ?vs1 = insert (x, y) ?V"
      using cells_update [OF L(1) assms(2,3)] .
    have "length ?vs1 = w * h" "distinct [(x, y)]" "set [(x, y)] \<subseteq> cells w h ?vs1"
      using L(1) c1 by simp_all
    from fill_loop [OF this, of gm 0]
    obtain vs' where f:
      "flood_fill w h gm vs x y
         = Some (vs', [], card (reach ?M {(x, y)} (insert (x, y) ?V)))"
      "length vs' = w * h"
      "cells w h vs' = insert (x, y) ?V \<union> reach ?M {(x, y)} (insert (x, y) ?V)"
      unfolding flood_fill_def c1 by auto
    have rr: "reach ?M {(x, y)} (insert (x, y) ?V) = region ?M (x, y)"
      by (rule reach_region [OF L(3) L(2) sM sV])
    let ?R = "region ?M (x, y)"
    have RM: "?R \<subseteq> ?M" by (rule region_subset [OF sM])
    have finR: "finite ?R" by (rule finite_subset [OF RM finite_cells])
    have V': "cells w h vs' = ?V \<union> ?R" using f(3) rr region_self [of "(x, y)" ?M] by auto
    let ?lg' = "if card ?R > lg then card ?R else lg"
    have step: "seed_step w h gm y x s = Some (vs', ?lg')"
      using False s f(1) rr by (auto simp: seed_step_def Let_def)
    have "?lg' = lmax ?M (cells w h vs')"
      using lmax_Un_region [OF finite_cells finR, of w h vs] L(4) V' by (simp add: max_def)
    moreover have "closed_under ?M (cells w h vs')"
      using closed_Un [OF L(3) region_closed [OF sM]] V' by simp
    moreover have "insert (x, y) C \<inter> ?M \<subseteq> cells w h vs'"
      using L(5) V' region_self [of "(x, y)" ?M] by auto
    ultimately have "labelled w h gm (insert (x, y) C) (vs', ?lg')"
      using f(2) V' L(2) RM by (simp add: labelled_def)
    then show ?thesis using step by blast
  qed
qed

lemma row_loop:
  assumes "labelled w h gm C s" "\<forall>x \<in> set xs. x < w" "y < h"
  shows "\<exists>s'. for_each xs (seed_step w h gm y) s = Some s'
           \<and> labelled w h gm (C \<union> (\<lambda>x. (x, y)) ` set xs) s'"
  using assms
proof (induction xs arbitrary: s C)
  case Nil
  then show ?case by simp
next
  case (Cons x xs)
  from seed_step_labelled [OF Cons.prems(1) _ Cons.prems(3), of x] Cons.prems(2)
  obtain s1 where s1: "seed_step w h gm y x s = Some s1" "labelled w h gm (insert (x, y) C) s1"
    by auto
  from Cons.IH [OF s1(2) _ Cons.prems(3)] Cons.prems(2)
  obtain s' where "for_each xs (seed_step w h gm y) s1 = Some s'"
    "labelled w h gm (insert (x, y) C \<union> (\<lambda>x. (x, y)) ` set xs) s'"
    by auto
  then show ?case using s1(1) by simp
qed

lemma grid_loop:
  assumes "labelled w h gm C s" "\<forall>y \<in> set ys. y < h"
  shows "\<exists>s'. for_each ys (\<lambda>y. for_each [0..<w] (seed_step w h gm y)) s = Some s'
           \<and> labelled w h gm (C \<union> {..<w} \<times> set ys) s'"
  using assms
proof (induction ys arbitrary: s C)
  case Nil
  then show ?case by simp
next
  case (Cons y ys)
  have "y < h" using Cons.prems(2) by simp
  from row_loop [OF Cons.prems(1) _ this, of "[0..<w]"]
  obtain s1 where s1: "for_each [0..<w] (seed_step w h gm y) s = Some s1"
    "labelled w h gm (C \<union> (\<lambda>x. (x, y)) ` set [0..<w]) s1"
    by auto
  from Cons.IH [OF s1(2)] Cons.prems(2)
  obtain s' where s': "for_each ys (\<lambda>y. for_each [0..<w] (seed_step w h gm y)) s1 = Some s'"
    "labelled w h gm (C \<union> (\<lambda>x. (x, y)) ` set [0..<w] \<union> {..<w} \<times> set ys) s'"
    by auto
  have "C \<union> (\<lambda>x. (x, y)) ` set [0..<w] \<union> {..<w} \<times> set ys = C \<union> {..<w} \<times> set (y # ys)"
    by auto
  then show ?case using s1(1) s' by simp
qed

lemma labelled_init: "labelled w h gm {} (replicate (w * h) 0, 0)"
proof -
  have "cells w h (replicate (w * h) 0) = {}"
    by (auto simp: cells_def idx_lt)
  then show ?thesis by (simp add: labelled_def closed_under_def lmax_def)
qed

lemma labelling:
  "\<exists>vs. for_each [0..<h] (\<lambda>y. for_each [0..<w] (seed_step w h gm y)) (replicate (w * h) 0, 0)
          = Some (vs, largest_region (cells w h gm))"
proof -
  from grid_loop [OF labelled_init, of "[0..<h]" h w gm]
  obtain s' where s': "for_each [0..<h] (\<lambda>y. for_each [0..<w] (seed_step w h gm y))
      (replicate (w * h) 0, 0) = Some s'"
    "labelled w h gm ({} \<union> {..<w} \<times> set [0..<h]) s'"
    by auto
  obtain vs lg where s: "s' = (vs, lg)" by (cases s')
  have "cells w h gm \<subseteq> {..<w} \<times> set [0..<h]" using cells_bounded [of w h gm] by auto
  then have "cells w h vs = cells w h gm" using s'(2) s by (auto simp: labelled_def)
  then have "lg = largest_region (cells w h gm)"
    using s'(2) s lmax_all [OF finite_cells, of w h gm] by (simp add: labelled_def)
  then show ?thesis using s'(1) s by simp
qed

text \<open>The stack of the source is a pair of arrays of \<open>width * height\<close> cells and a stack
  pointer. The cells on the stack are distinct and visited, so the stack never holds more than
  \<open>width * height\<close> of them, and every step of the loop keeps it so: no push goes past the
  end of the arrays.\<close>

lemma stack_within_capacity:
  assumes "distinct st" "set st \<subseteq> cells w h vs"
  shows "length st \<le> w * h"
proof -
  have "set st \<subseteq> {..<w} \<times> {..<h}" using assms(2) cells_bounded by blast
  then have "card (set st) \<le> card ({..<w} \<times> {..<h})" by (intro card_mono) simp_all
  then show ?thesis using assms(1) by (simp add: distinct_card)
qed

lemma fill_step_keeps_stack:
  assumes "length vs = w * h" "distinct st" "set st \<subseteq> cells w h vs"
    and "fill_step w h gm (vs, st, a) = (vs', st', a')"
  shows "length vs' = w * h \<and> distinct st' \<and> set st' \<subseteq> cells w h vs' \<and> length st' \<le> w * h"
proof (cases st)
  case Nil
  then show ?thesis using assms by (simp add: fill_step_def)
next
  case (Cons p rest)
  obtain cx cy where p: "p = (cx, cy)" by (cases p)
  have "p \<in> cells w h vs" using assms(3) Cons by simp
  then have inb: "cx < w" "cy < h" using p by (auto simp: cells_def)
  let ?ns = "neighbors w h cx cy"
  let ?N = "{n \<in> set ?ns. n \<in> cells w h gm \<and> n \<notin> cells w h vs}"
  have nsb: "\<forall>n \<in> set ?ns. fst n < w \<and> snd n < h"
    using neighbors_set [OF inb] by simp
  from visit_fold [OF assms(1) nsb neighbors_distinct refl, of gm rest]
  obtain vs1 st1 where f: "fold (visit_neighbor w gm) ?ns (vs, rest) = (vs1, st1)"
    "length vs1 = w * h" "cells w h vs1 = cells w h vs \<union> ?N"
    "set st1 = set rest \<union> ?N" "length st1 = length rest + card ?N"
    "distinct rest \<and> set rest \<inter> ?N = {} \<longrightarrow> distinct st1"
    by (elim exE conjE) (rule that)
  have eq: "vs' = vs1" "st' = st1"
    using assms(4) f(1) Cons p by (simp_all add: fill_step_def)
  have rest: "set rest \<subseteq> cells w h vs" "distinct rest" using assms(2,3) Cons by auto
  have d: "distinct st1" using f(6) rest by auto
  have s: "set st1 \<subseteq> cells w h vs1" using f(3,4) rest by auto
  show ?thesis using eq f(2) d s stack_within_capacity [OF d s] by simp
qed

text \<open>The edge pass reads the luma values of the four neighbours of an interior pixel, at
  \<open>i + 1\<close>, \<open>i - 1\<close>, \<open>i + width\<close> and \<open>i - width\<close>: all inside the array.\<close>

lemma interior_reads_in_range:
  fixes x y w h :: nat
  assumes "1 \<le> x" "x < w - 1" "1 \<le> y" "y < h - 1"
  shows "y * w + x + w < w * h" and "w \<le> y * w + x" and "1 \<le> y * w + x"
proof -
  have "x < w" "Suc y < h" using assms by simp_all
  then have "Suc y * w + x < w * h" by (rule idx_lt)
  then show "y * w + x + w < w * h" by (simp add: ac_simps)
  obtain k where "y = Suc k" using assms(3) by (cases y) simp_all
  then show "w \<le> y * w + x" by simp
  show "1 \<le> y * w + x" using assms(1) by simp
qed

section \<open>The per-pixel pass as maps and filters\<close>

fun rgb_of :: "8 word list \<Rightarrow> (8 word \<times> 8 word \<times> 8 word) list" where
  "rgb_of (r # g # b # al # rest) = (r, g, b) # rgb_of rest"
| "rgb_of rest = []"

definition green_px :: "8 word \<times> 8 word \<times> 8 word \<Rightarrow> bool" where
  "green_px c = (case c of (r, g, b) \<Rightarrow> isGreenish r g b)"

definition hue_px :: "8 word \<times> 8 word \<times> 8 word \<Rightarrow> real" where
  "hue_px c = (case c of (r, g, b) \<Rightarrow> hue r g b)"

definition code_px :: "8 word \<times> 8 word \<times> 8 word \<Rightarrow> 32 word" where
  "code_px c = (case c of (r, g, b) \<Rightarrow> palette_code r g b)"

lemma loop_greenCount:
  "greenCount (pixel_loop d idx a) = greenCount a + length (filter green_px (rgb_of d))"
  by (induction d idx a rule: pixel_loop.induct) (simp_all add: pixel_step_def Let_def green_px_def)

lemma loop_hueValues:
  "hueValues (pixel_loop d idx a) = hueValues a @ map hue_px (filter green_px (rgb_of d))"
  by (induction d idx a rule: pixel_loop.induct)
     (simp_all add: pixel_step_def Let_def green_px_def hue_px_def)

lemma loop_paletteCounts:
  "paletteCounts (pixel_loop d idx a) = fold bump (map code_px (rgb_of d)) (paletteCounts a)"
  by (induction d idx a rule: pixel_loop.induct)
     (simp_all add: pixel_step_def Let_def code_px_def)

lemma loop_rSum:
  "rSum (pixel_loop d idx a) = rSum a + sum_list (map (\<lambda>(r, g, b). unat r) (rgb_of d))"
  by (induction d idx a rule: pixel_loop.induct) (simp_all add: pixel_step_def Let_def)

lemma loop_gSum:
  "gSum (pixel_loop d idx a) = gSum a + sum_list (map (\<lambda>(r, g, b). unat g) (rgb_of d))"
  by (induction d idx a rule: pixel_loop.induct) (simp_all add: pixel_step_def Let_def)

lemma loop_bSum:
  "bSum (pixel_loop d idx a) = bSum a + sum_list (map (\<lambda>(r, g, b). unat b) (rgb_of d))"
  by (induction d idx a rule: pixel_loop.induct) (simp_all add: pixel_step_def Let_def)

lemma loop_rSq:
  "rSq (pixel_loop d idx a) = rSq a + sum_list (map (\<lambda>(r, g, b). unat r * unat r) (rgb_of d))"
  by (induction d idx a rule: pixel_loop.induct) (simp_all add: pixel_step_def Let_def)

lemma loop_gSq:
  "gSq (pixel_loop d idx a) = gSq a + sum_list (map (\<lambda>(r, g, b). unat g * unat g) (rgb_of d))"
  by (induction d idx a rule: pixel_loop.induct) (simp_all add: pixel_step_def Let_def)

lemma loop_bSq:
  "bSq (pixel_loop d idx a) = bSq a + sum_list (map (\<lambda>(r, g, b). unat b * unat b) (rgb_of d))"
  by (induction d idx a rule: pixel_loop.induct) (simp_all add: pixel_step_def Let_def)

lemma loop_length_greenMask:
  "length (greenMask (pixel_loop d idx a)) = length (greenMask a)"
  by (induction d idx a rule: pixel_loop.induct) (simp_all add: pixel_step_def Let_def)

lemma loop_length_gray:
  "length (gray (pixel_loop d idx a)) = length (gray a)"
  by (induction d idx a rule: pixel_loop.induct) (simp_all add: pixel_step_def Let_def)

lemma loop_greenMask_nth:
  "j < length (greenMask a) \<Longrightarrow>
   greenMask (pixel_loop d idx a) ! j =
     (if idx \<le> j \<and> j < idx + length (rgb_of d) \<and> green_px (rgb_of d ! (j - idx))
      then 1 else greenMask a ! j)"
proof (induction d idx a rule: pixel_loop.induct)
  case (1 r g b al rest idx a)
  let ?a1 = "pixel_step r g b idx a"
  have len: "length (greenMask ?a1) = length (greenMask a)"
    by (simp add: pixel_step_def Let_def)
  have here: "greenMask ?a1 ! j = (if j = idx \<and> isGreenish r g b then 1 else greenMask a ! j)"
    using "1.prems" by (simp add: pixel_step_def Let_def nth_list_update)
  have "greenMask (pixel_loop rest (idx + 1) ?a1) ! j =
     (if idx + 1 \<le> j \<and> j < idx + 1 + length (rgb_of rest) \<and> green_px (rgb_of rest ! (j - (idx + 1)))
      then 1 else greenMask ?a1 ! j)"
    using "1.IH" "1.prems" len by simp
  then show ?case
    using here by (cases "j = idx") (auto simp: green_px_def nth_Cons' Suc_diff_le)
qed auto

lemma scanned_greenMask:
  assumes "length (rgb_of (data img)) = pixels img"
  shows "greenMask (scanned img) = map (\<lambda>c. if green_px c then 1 else 0) (rgb_of (data img))"
proof (rule nth_equalityI)
  show "length (greenMask (scanned img)) = length (map (\<lambda>c. if green_px c then 1 else 0) (rgb_of (data img)))"
    using assms by (simp add: scanned_def loop_length_greenMask scan_init_def)
next
  fix j assume "j < length (greenMask (scanned img))"
  then have j: "j < pixels img"
    by (simp add: scanned_def loop_length_greenMask scan_init_def)
  then show "greenMask (scanned img) ! j = map (\<lambda>c. if green_px c then 1 else 0) (rgb_of (data img)) ! j"
    using assms loop_greenMask_nth [of j "scan_init (pixels img)" "data img" 0]
    by (simp add: scanned_def scan_init_def)
qed

lemma scanned_length_greenMask: "length (greenMask (scanned img)) = pixels img"
  by (simp add: scanned_def loop_length_greenMask scan_init_def)

lemma scanned_hue_count: "length (hueValues (scanned img)) = greenCount (scanned img)"
  by (simp add: scanned_def loop_hueValues loop_greenCount scan_init_def)

section \<open>What the labelling pass returns\<close>

lemma label_pass_value:
  "label_pass w h gm count = Some (if count > 0 then largest_region (cells w h gm) else 0)"
proof -
  obtain vs where "for_each [0..<h] (\<lambda>y. for_each [0..<w] (seed_step w h gm y))
      (replicate (w * h) 0, 0) = Some (vs, largest_region (cells w h gm))"
    using labelling [of h w gm] by blast
  then show ?thesis by (simp add: label_pass_def)
qed

lemma label_pass_largest:
  assumes "count = 0 \<longrightarrow> cells w h gm = {}"
  shows "label_pass w h gm count = Some (largest_region (cells w h gm))"
  using assms by (auto simp: label_pass_value largest_region_def)

lemma cells_empty_iff:
  assumes "length gm = w * h"
  shows "cells w h gm = {} \<longleftrightarrow> (\<forall>c \<in> set gm. c = 0)"
proof
  assume e: "cells w h gm = {}"
  show "\<forall>c \<in> set gm. c = 0"
  proof
    fix c assume "c \<in> set gm"
    then obtain i where i: "i < length gm" "gm ! i = c" by (auto simp: in_set_conv_nth)
    have w: "0 < w" using i(1) assms by (cases w) auto
    have "i mod w < w" "i div w < h" "(i div w) * w + i mod w = i"
      using i(1) assms w by (simp_all add: less_mult_imp_div_less mult.commute)
    then have "c \<noteq> 0 \<Longrightarrow> (i mod w, i div w) \<in> cells w h gm"
      using i(2) by (simp add: cells_def)
    then show "c = 0" using e by auto
  qed
next
  assume z: "\<forall>c \<in> set gm. c = 0"
  have "\<And>x y. x < w \<Longrightarrow> y < h \<Longrightarrow> gm ! (y * w + x) = 0"
    using z assms idx_lt nth_mem by metis
  then show "cells w h gm = {}" by (auto simp: cells_def)
qed

lemma count_zero_cells:
  assumes "length gm = w * h" "count = length (filter (\<lambda>c. c \<noteq> 0) gm)"
  shows "count = 0 \<longrightarrow> cells w h gm = {}"
  using assms cells_empty_iff [OF assms(1)] by (auto simp: filter_empty_conv)

lemma scanned_mask_count:
  assumes "x < width img" "y < height img"
    "greenMask (scanned img) ! (y * width img + x) \<noteq> 0"
  shows "0 < greenCount (scanned img)"
proof -
  let ?j = "y * width img + x"
  have j: "?j < pixels img" using assms(1,2) by (simp add: pixels_def idx_lt)
  have "greenMask (scanned img) ! ?j =
     (if ?j < length (rgb_of (data img)) \<and> green_px (rgb_of (data img) ! ?j) then 1 else 0)"
    using loop_greenMask_nth [of ?j "scan_init (pixels img)" "data img" 0] j
    by (simp add: scanned_def scan_init_def)
  then have "?j < length (rgb_of (data img))" "green_px (rgb_of (data img) ! ?j)"
    using assms(3) by (auto split: if_splits)
  then have "filter green_px (rgb_of (data img)) \<noteq> []"
    by (auto simp: filter_empty_conv)
  then show ?thesis by (simp add: scanned_def loop_greenCount)
qed

lemma largestCompRatio_value:
  "largestCompRatio img =
     Some (real (largest_region (cells (width img) (height img) (greenMask (scanned img))))
           / real (pixels img))"
proof -
  have "greenCount (scanned img) = 0 \<longrightarrow> cells (width img) (height img) (greenMask (scanned img)) = {}"
    using scanned_mask_count [of _ img] by (fastforce simp: cells_def)
  then show ?thesis
    by (simp add: largestCompRatio_def component_ratio_def label_pass_largest pixels_def)
qed

lemma analyse_returns: "\<exists>r. analyse img = Some r"
  by (simp add: analyse_def Let_def largestCompRatio_value)

section \<open>Blobs and bands of rows\<close>

text \<open>A blob is a non-empty 4-connected set of cells; two sets are apart when they share no
  cell and no cell of one is adjacent to a cell of the other. A band is a run of full rows.\<close>

definition blob :: "(nat \<times> nat) set \<Rightarrow> bool" where
  "blob A = (A \<noteq> {} \<and> (\<forall>p \<in> A. \<forall>q \<in> A. (p, q) \<in> (links A)\<^sup>*))"

definition apart :: "(nat \<times> nat) set \<Rightarrow> (nat \<times> nat) set \<Rightarrow> bool" where
  "apart A B = (A \<inter> B = {} \<and> (\<forall>p \<in> A. \<forall>q \<in> B. \<not> adjacent p q))"

definition band :: "nat \<Rightarrow> nat \<Rightarrow> nat \<Rightarrow> (nat \<times> nat) set" where
  "band w y0 y1 = {..<w} \<times> {y0..<y1}"

lemma links_mono: "A \<subseteq> B \<Longrightarrow> links A \<subseteq> links B"
  by (auto simp: links_def)

lemma apart_sym: "apart A B \<Longrightarrow> apart B A"
  by (auto simp: apart_def dest: adjacent_sym)

lemma region_blob_Un:
  assumes "blob A" "apart A B" "p \<in> A"
  shows "region (A \<union> B) p = A"
proof (intro equalityI subsetI)
  fix q assume "q \<in> region (A \<union> B) p"
  then have "(p, q) \<in> (links (A \<union> B))\<^sup>*" by (simp add: region_def)
  then show "q \<in> A"
  proof (induction rule: rtrancl_induct)
    case base
    then show ?case by (rule assms(3))
  next
    case (step a b)
    then show ?case using assms(2) by (auto simp: links_def apart_def)
  qed
next
  fix q assume "q \<in> A"
  then have "(p, q) \<in> (links A)\<^sup>*" using assms(1,3) by (simp add: blob_def)
  moreover have "(links A)\<^sup>* \<subseteq> (links (A \<union> B))\<^sup>*"
    by (rule rtrancl_mono) (rule links_mono, simp)
  ultimately show "q \<in> region (A \<union> B) p" by (auto simp: region_def)
qed

lemma largest_one_blob:
  assumes "blob A"
  shows "largest_region A = card A"
proof -
  have "apart A {}" by (simp add: apart_def)
  then have "\<And>p. p \<in> A \<Longrightarrow> card (region A p) = card A"
    using region_blob_Un [OF assms, of "{}"] by simp
  moreover have "A \<noteq> {}" using assms by (simp add: blob_def)
  ultimately have "(\<lambda>p. card (region A p)) ` A = {card A}" by auto
  then show ?thesis using \<open>A \<noteq> {}\<close> by (simp add: largest_region_def)
qed

lemma largest_two_blobs:
  assumes "blob A" "blob B" "apart A B"
  shows "largest_region (A \<union> B) = max (card A) (card B)"
proof -
  let ?f = "\<lambda>p. card (region (A \<union> B) p)"
  have A: "\<And>p. p \<in> A \<Longrightarrow> ?f p = card A"
    using region_blob_Un [OF assms(1,3)] by simp
  have B: "\<And>p. p \<in> B \<Longrightarrow> ?f p = card B"
    using region_blob_Un [OF assms(2) apart_sym [OF assms(3)]] by (simp add: Un_commute)
  have ne: "A \<noteq> {}" "B \<noteq> {}" using assms by (simp_all add: blob_def)
  have "?f ` A = {card A}" using A ne by auto
  moreover have "?f ` B = {card B}" using B ne by auto
  ultimately have "?f ` (A \<union> B) = {card A, card B}" by (auto simp: image_Un)
  then show ?thesis using ne by (simp add: largest_region_def)
qed

lemma card_band: "card (band w y0 y1) = w * (y1 - y0)"
  by (simp add: band_def)

lemma band_row:
  assumes "x < w" "y0 \<le> y" "y < y1"
  shows "((0, y), (x, y)) \<in> (links (band w y0 y1))\<^sup>*"
  using assms(1)
proof (induction x)
  case 0
  then show ?case by simp
next
  case (Suc x)
  then have "((x, y), (Suc x, y)) \<in> links (band w y0 y1)"
    using assms(2,3) by (simp add: links_def band_def adjacent_def)
  then show ?case using Suc by (auto intro: rtrancl_into_rtrancl)
qed

lemma band_column:
  assumes "0 < w" "y0 \<le> y" "y < y1"
  shows "((0, y0), (0, y)) \<in> (links (band w y0 y1))\<^sup>*"
  using assms(2,3)
proof (induction y)
  case 0
  then show ?case by simp
next
  case (Suc y)
  show ?case
  proof (cases "y0 = Suc y")
    case True
    then show ?thesis by simp
  next
    case False
    then have le: "y0 \<le> y" "y < y1" using Suc.prems by simp_all
    then have "((0, y), (0, Suc y)) \<in> links (band w y0 y1)"
      using assms(1) Suc.prems by (simp add: links_def band_def adjacent_def)
    then show ?thesis using Suc.IH [OF le] by (auto intro: rtrancl_into_rtrancl)
  qed
qed

lemma blob_band:
  assumes "0 < w" "y0 < y1"
  shows "blob (band w y0 y1)"
proof -
  have from_corner: "((0, y0), p) \<in> (links (band w y0 y1))\<^sup>*" if "p \<in> band w y0 y1" for p
  proof -
    obtain x y where p: "p = (x, y)" by (cases p)
    then have b: "x < w" "y0 \<le> y" "y < y1" using that by (simp_all add: band_def)
    show ?thesis
      using band_column [OF assms(1) b(2,3)] band_row [OF b] p by (auto intro: rtrancl_trans)
  qed
  have "(p, q) \<in> (links (band w y0 y1))\<^sup>*" if "p \<in> band w y0 y1" "q \<in> band w y0 y1" for p q
    using links_rtrancl_sym [OF from_corner [OF that(1)]] from_corner [OF that(2)]
    by (rule rtrancl_trans)
  moreover have "(0, y0) \<in> band w y0 y1" using assms by (simp add: band_def)
  ultimately show ?thesis unfolding blob_def by blast
qed

lemma apart_band: "y1 < y2 \<Longrightarrow> apart (band w y0 y1) (band w y2 y3)"
  by (auto simp: apart_def band_def adjacent_def)

lemma idx_shift:
  assumes "a \<le> (y::nat)"
  shows "y * w + x - w * a = (y - a) * w + x" "w * a \<le> y * w + x"
proof -
  obtain k where k: "y = a + k" using assms le_Suc_ex by blast
  show "y * w + x - w * a = (y - a) * w + x" using k by (simp add: algebra_simps)
  show "w * a \<le> y * w + x" using k by (simp add: algebra_simps)
qed

lemma cells_append:
  assumes "length pre = w * a" "a \<le> h"
  shows "cells w h (pre @ rest) = cells w a pre \<union> (\<lambda>(x, y). (x, y + a)) ` cells w (h - a) rest"
proof (intro equalityI subsetI)
  fix p assume p: "p \<in> cells w h (pre @ rest)"
  obtain x y where xy: "p = (x, y)" by (cases p)
  from p xy have c: "x < w" "y < h" "(pre @ rest) ! (y * w + x) \<noteq> 0" by (simp_all add: cells_def)
  show "p \<in> cells w a pre \<union> (\<lambda>(x, y). (x, y + a)) ` cells w (h - a) rest"
  proof (cases "y < a")
    case True
    then have "y * w + x < length pre" using c(1) assms(1) by (simp add: idx_lt)
    then show ?thesis using c True xy by (simp add: cells_def nth_append)
  next
    case False
    then have ge: "a \<le> y" by simp
    have "rest ! ((y - a) * w + x) \<noteq> 0"
      using c(3) idx_shift [OF ge, of w x] assms(1) by (simp add: nth_append)
    then have "(x, y - a) \<in> cells w (h - a) rest" using c ge by (simp add: cells_def)
    then have "(\<lambda>(x, y). (x, y + a)) (x, y - a) \<in> (\<lambda>(x, y). (x, y + a)) ` cells w (h - a) rest"
      by (rule imageI)
    then show ?thesis using xy ge by simp
  qed
next
  fix p assume p: "p \<in> cells w a pre \<union> (\<lambda>(x, y). (x, y + a)) ` cells w (h - a) rest"
  then show "p \<in> cells w h (pre @ rest)"
  proof
    assume "p \<in> cells w a pre"
    then obtain x y where xy: "p = (x, y)" "x < w" "y < a" "pre ! (y * w + x) \<noteq> 0"
      by (auto simp: cells_def)
    then have "y * w + x < length pre" using assms(1) by (simp add: idx_lt)
    then show ?thesis using xy assms(2) by (simp add: cells_def nth_append)
  next
    assume "p \<in> (\<lambda>(x, y). (x, y + a)) ` cells w (h - a) rest"
    then obtain x y where xy: "p = (x, y + a)" "x < w" "y < h - a" "rest ! (y * w + x) \<noteq> 0"
      by (auto simp: cells_def)
    have "(pre @ rest) ! ((y + a) * w + x) = rest ! (y * w + x)"
      using idx_shift [of a "y + a" w x] assms(1) by (simp add: nth_append)
    then show ?thesis using xy by (simp add: cells_def)
  qed
qed

lemma cells_replicate: "cells w a (replicate (w * a) v) = (if v = 0 then {} else band w 0 a)"
  by (auto simp: cells_def band_def idx_lt)

lemma shift_band: "(\<lambda>(x, y). (x, y + a)) ` band w y0 y1 = band w (y0 + a) (y1 + a)"
proof (intro equalityI subsetI)
  fix p assume "p \<in> band w (y0 + a) (y1 + a)"
  then obtain x y where "p = (x, y)" "x < w" "y0 + a \<le> y" "y < y1 + a"
    by (auto simp: band_def)
  then have "p = (\<lambda>(x, y). (x, y + a)) (x, y - a)" "(x, y - a) \<in> band w y0 y1"
    by (auto simp: band_def)
  then show "p \<in> (\<lambda>(x, y). (x, y + a)) ` band w y0 y1" by blast
qed (auto simp: band_def)

lemma cells_run:
  assumes "a \<le> h"
  shows "cells w h (replicate (w * a) v @ rest) =
     (if v = 0 then {} else band w 0 a) \<union> (\<lambda>(x, y). (x, y + a)) ` cells w (h - a) rest"
  using cells_append [of "replicate (w * a) v" w a h rest] assms
  by (simp add: cells_replicate)

lemma band_empty: "band w y y = {}"
  by (simp add: band_def)

lemma cells_four_runs:
  "cells w (a + b + c + d)
     (replicate (w * a) 1 @ replicate (w * b) 0 @ replicate (w * c) 1 @ replicate (w * d) 0)
   = band w 0 a \<union> band w (a + b) (a + b + c)"
proof -
  have 3: "cells w (c + d) (replicate (w * c) 1 @ replicate (w * d) 0) = band w 0 c"
    using cells_run [of c "c + d" w 1 "replicate (w * d) 0"] by (simp add: cells_replicate)
  have 2: "cells w (b + c + d) (replicate (w * b) 0 @ replicate (w * c) 1 @ replicate (w * d) 0)
      = band w b (b + c)"
    using cells_run [of b "b + c + d" w 0 "replicate (w * c) 1 @ replicate (w * d) 0"] 3
    by (simp add: shift_band add.assoc add.commute)
  show ?thesis
    using cells_run [of a "a + b + c + d" w 1
        "replicate (w * b) 0 @ replicate (w * c) 1 @ replicate (w * d) 0"] 2
    by (simp add: shift_band add.assoc add.commute add.left_commute)
qed

section \<open>The decision, as the specification words it\<close>

text \<open>
  \<open>passes_guards\<close>: none of the five guards of Phase 1 and Phase 2 fires. \<open>signals\<close>: the
  five soft signals, in the order of the specification; \<open>holding\<close> counts those that hold.
  \<open>reason_priority\<close>: the rejection reasons of Phase 3 with the condition under which each
  applies, most specific first; \<open>first_applicable\<close> picks the first that applies.
  \<open>short_circuits img msg\<close>: the analysis returns the rejection \<open>msg\<close> without having
  computed the soft score.
\<close>

definition passes_guards :: "ImageData \<Rightarrow> real \<Rightarrow> bool" where
  "passes_guards img lcr =
     (\<not> pixels img < 8000 \<and> \<not> aspect img > 7 \<and> largestCompRatio img = Some lcr
      \<and> \<not> greenRatio img < 0.18 \<and> \<not> lcr < 0.12 \<and> \<not> greenRatio img > 0.995)"

definition signals :: "ImageData \<Rightarrow> bool list" where
  "signals img =
     [ True,
       \<not> isVeryUniform img \<or> \<not> paletteTooSmall img,
       edgeDensity img = 0 \<or> (0.015 \<le> edgeDensity img \<and> edgeDensity img \<le> 0.60),
       hueStdTooLow img = None \<or> hueStdTooLow img = Some False,
       topShare img \<le> 0.70 ]"

definition holding :: "bool list \<Rightarrow> nat" where
  "holding bs = length (filter (\<lambda>b. b) bs)"

definition reason_priority :: "ImageData \<Rightarrow> real \<Rightarrow> (bool \<times> string) list" where
  "reason_priority img lcr =
     [ (lcr < 0.12, ''Objek daun terlalu kecil/tersebar.''),
       (isVeryUniform img, ''Gambar terlalu seragam seperti ilustrasi/solid color.''),
       (paletteTooSmall img \<or> topShare img > 0.70,
          ''Palet warna sangat terbatas seperti ikon/ilustrasi.''),
       (edgeDensity img > 0.60, ''Terlalu banyak garis tegas seperti ikon/teks.''),
       (edgeDensity img < 0.01, ''Tekstur daun tidak terdeteksi (terlalu datar).''),
       (True, ''Gambar tidak menunjukkan ciri daun tanaman yang jelas.'') ]"

definition first_applicable :: "(bool \<times> string) list \<Rightarrow> string option" where
  "first_applicable rs = (case filter fst rs of [] \<Rightarrow> None | r # _ \<Rightarrow> Some (snd r))"

lemma score_holding: "score img = holding (signals img)"
  by (simp add: score_def signals_def holding_def)

lemma analyse_passed:
  "passes_guards img lcr \<Longrightarrow> analyse img = Some (soft_rules img lcr)"
  by (simp add: passes_guards_def analyse_def pixels_def)

lemma valid_soft_rules: "valid (verdict (soft_rules img r)) \<longleftrightarrow> 3 \<le> score img"
  by (simp add: soft_rules_def Let_def accept_def reject_def)

lemma accept_soft_rules: "verdict (soft_rules img r) = accept \<longleftrightarrow> 3 \<le> score img"
  by (auto simp add: soft_rules_def Let_def accept_def reject_def)

lemma soft_rules_rejects:
  "score img < 3 \<Longrightarrow>
   verdict (soft_rules img lcr) = \<lparr> valid = False, reason = first_applicable (reason_priority img lcr) \<rparr>"
  by (simp add: soft_rules_def Let_def reject_def first_applicable_def reason_priority_def)

lemma soft_rules_scored: "soft_score (soft_rules img lcr) = Some (score img)"
  by (simp add: soft_rules_def Let_def)

definition short_circuits :: "ImageData \<Rightarrow> string \<Rightarrow> bool" where
  "short_circuits img msg =
     (analyse img = Some \<lparr> verdict = \<lparr> valid = False, reason = Some msg \<rparr>, soft_score = None \<rparr>
      \<and> validateLeafImage (Inr img) = Some \<lparr> valid = False, reason = Some msg \<rparr>)"

lemma short_circuits_iff:
  "short_circuits img msg \<longleftrightarrow> analyse img = Some (guarded msg)"
  by (auto simp: short_circuits_def guarded_def reject_def validateLeafImage_def)

lemma phase3_reached:
  assumes "analyse img = Some r" "soft_score r \<noteq> None"
  shows "\<exists>lcr. passes_guards img lcr \<and> r = soft_rules img lcr"
proof -
  obtain v where v: "largestCompRatio img = Some v"
    using largestCompRatio_value [of img] by blast
  show ?thesis
    using assms v
    by (auto simp: analyse_def pixels_def guarded_def passes_guards_def split: if_splits)
qed

section \<open>Synthetic images\<close>

text \<open>
  Images of full-width bands of rows, each band of one colour, on which the features can be
  computed in closed form: \<open>solid n c\<close> is the data of \<open>n\<close> opaque pixels of colour \<open>c\<close>.
\<close>

type_synonym rgb = "8 word \<times> 8 word \<times> 8 word"

definition solid :: "nat \<Rightarrow> rgb \<Rightarrow> 8 word list" where
  "solid n c = concat (replicate n [fst c, fst (snd c), snd (snd c), 255])"

lemma rgb_of_solid: "rgb_of (solid n c @ d) = replicate n c @ rgb_of d"
  by (induction n) (simp_all add: solid_def)

lemma rgb_of_solid': "rgb_of (solid n c) = replicate n c"
  using rgb_of_solid [of n c "[]"] by simp

lemma toHSV_leaf_green: "toHSV (byte 60) (byte 160) (byte 60) = (1 / 3, 5 / 8, 32 / 51)"
  by (simp add: toHSV_def byte_def Let_def)

lemma green_60_160_60: "green_px (60, 160, 60)"
  by (simp add: green_px_def isGreenish_def toHSV_leaf_green)

lemma green_110_160_60: "green_px (110, 160, 60)"
  by (simp add: green_px_def isGreenish_def toHSV_def byte_def Let_def)

lemma green_80_100_80: "green_px (80, 100, 80)"
  by (simp add: green_px_def isGreenish_def toHSV_def byte_def Let_def)

lemma not_green_90_100_90: "\<not> green_px (90, 100, 90)"
  by (simp add: green_px_def isGreenish_def toHSV_def byte_def Let_def)

lemma not_green_200_30_30: "\<not> green_px (200, 30, 30)"
  by (simp add: green_px_def isGreenish_def toHSV_def byte_def Let_def)

lemma hue_60_160_60: "hue_px (60, 160, 60) = 1 / 3"
  by (simp add: hue_px_def hue_def toHSV_leaf_green)

lemma hue_110_160_60: "hue_px (110, 160, 60) = 1 / 4"
  by (simp add: hue_px_def hue_def toHSV_def byte_def Let_def)

lemma hue_80_100_80: "hue_px (80, 100, 80) = 1 / 3"
  by (simp add: hue_px_def hue_def toHSV_def byte_def Let_def)

lemma code_80_100_80: "code_px (80, 100, 80) = code_px (90, 100, 90)"
  by (simp add: code_px_def palette_code_def)

definition runs4 :: "nat \<Rightarrow> nat \<Rightarrow> nat \<Rightarrow> nat \<Rightarrow> nat \<Rightarrow> 'a \<Rightarrow> 'a \<Rightarrow> 'a \<Rightarrow> 'a \<Rightarrow> 'a list" where
  "runs4 w a b c d x1 x2 x3 x4 =
     replicate (w * a) x1 @ replicate (w * b) x2 @ replicate (w * c) x3 @ replicate (w * d) x4"

definition bands4 :: "nat \<Rightarrow> nat \<Rightarrow> nat \<Rightarrow> nat \<Rightarrow> nat \<Rightarrow> rgb \<Rightarrow> rgb \<Rightarrow> rgb \<Rightarrow> rgb \<Rightarrow> ImageData" where
  "bands4 w a b c d c1 c2 c3 c4 =
     \<lparr> data = solid (w * a) c1 @ solid (w * b) c2 @ solid (w * c) c3 @ solid (w * d) c4,
       width = w, height = a + b + c + d \<rparr>"

definition mask_bit :: "rgb \<Rightarrow> 8 word" where
  "mask_bit c = (if green_px c then 1 else 0)"

lemma rgb_bands4: "rgb_of (data (bands4 w a b c d c1 c2 c3 c4)) = runs4 w a b c d c1 c2 c3 c4"
  by (simp add: bands4_def runs4_def rgb_of_solid rgb_of_solid')

lemma pixels_bands4: "pixels (bands4 w a b c d c1 c2 c3 c4) = w * (a + b + c + d)"
  by (simp add: bands4_def pixels_def)

lemma length_runs4: "length (runs4 w a b c d x1 x2 x3 x4) = w * (a + b + c + d)"
  by (simp add: runs4_def algebra_simps)

lemma mask_bands4:
  "greenMask (scanned (bands4 w a b c d c1 c2 c3 c4))
     = runs4 w a b c d (mask_bit c1) (mask_bit c2) (mask_bit c3) (mask_bit c4)"
proof -
  let ?img = "bands4 w a b c d c1 c2 c3 c4"
  have "length (rgb_of (data ?img)) = pixels ?img"
    by (simp add: rgb_bands4 length_runs4 pixels_bands4)
  from scanned_greenMask [OF this] show ?thesis
    by (simp add: rgb_bands4 runs4_def mask_bit_def)
qed

lemma cells_runs4:
  "cells w (a + b + c + d) (runs4 w a b c d v1 v2 v3 v4)
   = (if v1 = 0 then {} else band w 0 a) \<union> (if v2 = 0 then {} else band w a (a + b))
     \<union> (if v3 = 0 then {} else band w (a + b) (a + b + c))
     \<union> (if v4 = 0 then {} else band w (a + b + c) (a + b + c + d))"
proof -
  have 4: "cells w d (replicate (w * d) v4) = (if v4 = 0 then {} else band w 0 d)"
    by (rule cells_replicate)
  have 3: "cells w (c + d) (replicate (w * c) v3 @ replicate (w * d) v4)
      = (if v3 = 0 then {} else band w 0 c) \<union> (if v4 = 0 then {} else band w c (c + d))"
    using cells_run [of c "c + d" w v3 "replicate (w * d) v4"] 4
    by (simp add: shift_band ac_simps)
  have 2: "cells w (b + c + d) (replicate (w * b) v2 @ replicate (w * c) v3 @ replicate (w * d) v4)
      = (if v2 = 0 then {} else band w 0 b) \<union> (if v3 = 0 then {} else band w b (b + c))
        \<union> (if v4 = 0 then {} else band w (b + c) (b + c + d))"
    using cells_run [of b "b + c + d" w v2 "replicate (w * c) v3 @ replicate (w * d) v4"] 3
    by (simp add: shift_band image_Un ac_simps Un_assoc)
  show ?thesis
    unfolding runs4_def
    using cells_run [of a "a + b + c + d" w v1
        "replicate (w * b) v2 @ replicate (w * c) v3 @ replicate (w * d) v4"] 2
    by (simp add: shift_band image_Un ac_simps Un_assoc)
qed

lemma band_join: "y0 \<le> y1 \<Longrightarrow> y1 \<le> y2 \<Longrightarrow> band w y0 y1 \<union> band w y1 y2 = band w y0 y2"
  by (auto simp: band_def)

lemma largest_band: "0 < w \<Longrightarrow> y0 < y1 \<Longrightarrow> largest_region (band w y0 y1) = w * (y1 - y0)"
  by (simp add: largest_one_blob blob_band card_band)

lemma largest_two_bands:
  assumes "0 < w" "y0 < y1" "y1 < y2" "y2 < y3"
  shows "largest_region (band w y0 y1 \<union> band w y2 y3) = max (w * (y1 - y0)) (w * (y3 - y2))"
  using largest_two_blobs [OF blob_band [OF assms(1,2)] blob_band [OF assms(1,4)]
      apart_band [OF assms(3)]]
  by (simp add: card_band)

lemma greenCount_scanned:
  "greenCount (scanned img) = length (filter green_px (rgb_of (data img)))"
  by (simp add: scanned_def loop_greenCount scan_init_def)

lemma hueValues_scanned:
  "hueValues (scanned img) = map hue_px (filter green_px (rgb_of (data img)))"
  by (simp add: scanned_def loop_hueValues scan_init_def)

lemma paletteCounts_scanned:
  "paletteCounts (scanned img) = fold bump (map code_px (rgb_of (data img))) []"
  by (simp add: scanned_def loop_paletteCounts scan_init_def)

lemma largestCompRatio_bands4:
  "largestCompRatio (bands4 w a b c d c1 c2 c3 c4)
     = Some (real (largest_region
               (cells w (a + b + c + d)
                  (runs4 w a b c d (mask_bit c1) (mask_bit c2) (mask_bit c3) (mask_bit c4))))
             / real (w * (a + b + c + d)))"
  using largestCompRatio_value [of "bands4 w a b c d c1 c2 c3 c4"]
  by (simp add: mask_bands4 pixels_bands4) (simp add: bands4_def)

lemma sqrt_less_iff: "0 \<le> c \<Longrightarrow> sqrt x < c \<longleftrightarrow> x < c\<^sup>2"
proof -
  assume c: "0 \<le> c"
  have "sqrt x < c \<longleftrightarrow> sqrt x < sqrt (c\<^sup>2)" using c by simp
  also have "\<dots> \<longleftrightarrow> x < c\<^sup>2" by (rule real_sqrt_less_iff)
  finally show ?thesis .
qed

lemma foldl_plus: "foldl (\<lambda>a v. a + f v) s xs = s + sum_list (map f xs)"
  for s :: "'a::comm_monoid_add"
  by (induction xs arbitrary: s) (simp_all add: add.assoc)

lemma foldl_sum: "foldl (\<lambda>a v. a + v) s xs = s + sum_list xs"
  for s :: "'a::comm_monoid_add"
  using foldl_plus [of "\<lambda>v. v" s xs] by simp

lemma bump_lookup: "map_of (bump k pc) k = Some ((case map_of pc k of None \<Rightarrow> 0 | Some c \<Rightarrow> c) + 1)"
  by (simp add: bump_def update_conv')

lemma fold_bump_replicate:
  "fold bump (replicate n k) pc =
     (if n = 0 then pc
      else AList.update k ((case map_of pc k of None \<Rightarrow> 0 | Some c \<Rightarrow> c) + n) pc)"
proof (induction n arbitrary: pc)
  case 0
  then show ?case by simp
next
  case (Suc n)
  show ?case
  proof (cases "n = 0")
    case True
    then show ?thesis by (simp add: bump_def)
  next
    case False
    then show ?thesis
      using Suc [of "bump k pc"] by (simp add: bump_lookup) (simp add: bump_def)
  qed
qed

lemma sums_scanned:
  "rSum (scanned img) = sum_list (map (\<lambda>(r, g, b). unat r) (rgb_of (data img)))"
  "gSum (scanned img) = sum_list (map (\<lambda>(r, g, b). unat g) (rgb_of (data img)))"
  "bSum (scanned img) = sum_list (map (\<lambda>(r, g, b). unat b) (rgb_of (data img)))"
  "rSq (scanned img) = sum_list (map (\<lambda>(r, g, b). unat r * unat r) (rgb_of (data img)))"
  "gSq (scanned img) = sum_list (map (\<lambda>(r, g, b). unat g * unat g) (rgb_of (data img)))"
  "bSq (scanned img) = sum_list (map (\<lambda>(r, g, b). unat b * unat b) (rgb_of (data img)))"
  by (simp_all add: scanned_def scan_init_def loop_rSum loop_gSum loop_bSum loop_rSq loop_gSq
      loop_bSq)

definition flat_image :: ImageData where
  "flat_image = bands4 100 50 50 0 0 (80, 100, 80) (90, 100, 90) (80, 100, 80) (90, 100, 90)"

definition leaf_image :: ImageData where
  "leaf_image = bands4 100 40 40 20 0 (60, 160, 60) (110, 160, 60) (200, 30, 30) (200, 30, 30)"

lemmas colour_facts = green_60_160_60 green_110_160_60 green_80_100_80 not_green_90_100_90
  not_green_200_30_30 hue_60_160_60 hue_110_160_60 hue_80_100_80

lemma flat_pixels: "pixels flat_image = 10000"
  by (simp add: flat_image_def pixels_bands4)

lemma flat_aspect: "aspect flat_image = 1"
  by (simp add: flat_image_def bands4_def aspect_def)

lemma flat_greenCount: "greenCount (scanned flat_image) = 5000"
  by (simp add: greenCount_scanned flat_image_def rgb_bands4 runs4_def colour_facts)

lemma flat_greenRatio: "greenRatio flat_image = 1 / 2"
  by (simp add: greenRatio_def flat_greenCount flat_pixels)

lemma flat_largest: "largestCompRatio flat_image = Some (1 / 2)"
proof -
  have "cells 100 100 (runs4 100 50 50 0 0 (1::8 word) 0 1 0) = band 100 0 50"
    using cells_runs4 [of 100 50 50 0 0 "1::8 word" 0 1 0] by (simp add: band_empty)
  then show ?thesis
    unfolding flat_image_def largestCompRatio_bands4
    by (simp add: mask_bit_def colour_facts largest_band)
qed

lemma flat_passes: "passes_guards flat_image (1 / 2)"
  by (simp add: passes_guards_def flat_pixels flat_aspect flat_greenRatio flat_largest)

lemma flat_uniform: "isVeryUniform flat_image"
  by (simp add: isVeryUniform_def channel_std_def sums_scanned flat_pixels Let_def
      sqrt_less_iff)
    (simp add: flat_image_def rgb_bands4 runs4_def sum_list_replicate)

lemma flat_palette: "paletteCounts (scanned flat_image) = [(code_px (90, 100, 90), 10000)]"
  by (simp add: paletteCounts_scanned flat_image_def rgb_bands4 runs4_def code_80_100_80
      fold_bump_replicate del: fold_replicate)

lemma flat_paletteTooSmall: "paletteTooSmall flat_image"
  by (simp add: paletteTooSmall_def flat_palette flat_pixels)

lemma flat_topShare: "topShare flat_image = 1"
  by (simp add: topShare_def flat_palette flat_pixels)

lemma flat_hue: "hueStdTooLow flat_image = Some True"
  by (simp add: hueStdTooLow_def hueValues_scanned flat_image_def rgb_bands4 runs4_def
      colour_facts foldl_sum foldl_plus Let_def sum_list_replicate)

lemma flat_votes: "holding (signals flat_image) < 3"
  by (simp add: signals_def holding_def flat_uniform flat_paletteTooSmall flat_topShare flat_hue)

lemma leaf_pixels: "pixels leaf_image = 10000"
  by (simp add: leaf_image_def pixels_bands4)

lemma leaf_aspect: "aspect leaf_image = 1"
  by (simp add: leaf_image_def bands4_def aspect_def)

lemma leaf_greenCount: "greenCount (scanned leaf_image) = 8000"
  by (simp add: greenCount_scanned leaf_image_def rgb_bands4 runs4_def colour_facts)

lemma leaf_greenRatio: "greenRatio leaf_image = 4 / 5"
  by (simp add: greenRatio_def leaf_greenCount leaf_pixels)

lemma leaf_largest: "largestCompRatio leaf_image = Some (4 / 5)"
proof -
  have "cells 100 100 (runs4 100 40 40 20 0 (1::8 word) 1 0 0) = band 100 0 80"
    using cells_runs4 [of 100 40 40 20 0 "1::8 word" 1 0 0] band_join [of 0 40 80 100]
    by simp
  then show ?thesis
    unfolding leaf_image_def largestCompRatio_bands4
    by (simp add: mask_bit_def colour_facts largest_band)
qed

lemma leaf_passes: "passes_guards leaf_image (4 / 5)"
  by (simp add: passes_guards_def leaf_pixels leaf_aspect leaf_greenRatio leaf_largest)

lemma leaf_not_uniform: "\<not> isVeryUniform leaf_image"
  by (simp add: isVeryUniform_def channel_std_def sums_scanned leaf_pixels Let_def
      sqrt_less_iff)
    (simp add: leaf_image_def rgb_bands4 runs4_def sum_list_replicate)

lemma hueStd_iff: "sqrt x < 0.02 \<longleftrightarrow> x < 0.0004"
  using sqrt_less_iff [of "0.02" x] by (simp add: power2_eq_square)

lemma leaf_hue: "hueStdTooLow leaf_image = Some False"
  unfolding hueStdTooLow_def Let_def hueStd_iff
  by (simp add: hueValues_scanned leaf_image_def rgb_bands4 runs4_def
      colour_facts foldl_sum foldl_plus sum_list_replicate)

lemma leaf_votes: "3 \<le> holding (signals leaf_image)"
  by (simp add: signals_def holding_def leaf_not_uniform leaf_hue)

lemma solid_green_features:
  assumes "rgb_of (data img) = replicate (pixels img) c" "green_px c" "0 < pixels img"
  shows "greenRatio img = 1" "largestCompRatio img = Some 1"
proof -
  let ?w = "width img" and ?h = "height img"
  have wh: "0 < ?w" "0 < ?h" using assms(3) by (simp_all add: pixels_def)
  show "greenRatio img = 1"
    using assms by (simp add: greenRatio_def greenCount_scanned)
  have "greenMask (scanned img) = replicate (?w * ?h) 1"
    using scanned_greenMask [of img] assms(1,2) by (simp add: pixels_def)
  then have "cells ?w ?h (greenMask (scanned img)) = band ?w 0 ?h"
    by (simp add: cells_replicate)
  then show "largestCompRatio img = Some 1"
    using wh assms(3) by (simp add: largestCompRatio_value largest_band pixels_def)
qed

definition red_image :: ImageData where
  "red_image = bands4 100 100 0 0 0 (200, 30, 30) (200, 30, 30) (200, 30, 30) (200, 30, 30)"

definition fragmented_image :: ImageData where
  "fragmented_image =
     bands4 100 10 10 10 70 (60, 160, 60) (200, 30, 30) (60, 160, 60) (200, 30, 30)"

definition solid_image :: "nat \<Rightarrow> nat \<Rightarrow> ImageData" where
  "solid_image w h = \<lparr> data = solid (w * h) (60, 160, 60), width = w, height = h \<rparr>"

lemma red_facts:
  "pixels red_image = 10000" "aspect red_image = 1" "greenRatio red_image = 0"
  by (simp_all add: red_image_def pixels_bands4 greenRatio_def greenCount_scanned rgb_bands4
      runs4_def colour_facts)
    (simp add: bands4_def aspect_def)

lemma fragmented_facts:
  "pixels fragmented_image = 10000" "aspect fragmented_image = 1"
  "greenRatio fragmented_image = 1 / 5" "largestCompRatio fragmented_image = Some (1 / 10)"
proof -
  show "pixels fragmented_image = 10000" by (simp add: fragmented_image_def pixels_bands4)
  show "aspect fragmented_image = 1" by (simp add: fragmented_image_def bands4_def aspect_def)
  show "greenRatio fragmented_image = 1 / 5"
    by (simp add: fragmented_image_def pixels_bands4 greenRatio_def greenCount_scanned
        rgb_bands4 runs4_def colour_facts)
  have "cells 100 100 (runs4 100 10 10 10 70 (1::8 word) 0 1 0) = band 100 0 10 \<union> band 100 20 30"
    using cells_runs4 [of 100 10 10 10 70 "1::8 word" 0 1 0] by simp
  then show "largestCompRatio fragmented_image = Some (1 / 10)"
    unfolding fragmented_image_def largestCompRatio_bands4
    by (simp add: mask_bit_def colour_facts largest_two_bands)
qed

lemma solid_image_facts:
  assumes "0 < w * h"
  shows "pixels (solid_image w h) = w * h"
    "rgb_of (data (solid_image w h)) = replicate (pixels (solid_image w h)) (60, 160, 60)"
    "greenRatio (solid_image w h) = 1" "largestCompRatio (solid_image w h) = Some 1"
proof -
  show p: "pixels (solid_image w h) = w * h" by (simp add: solid_image_def pixels_def)
  show r: "rgb_of (data (solid_image w h)) = replicate (pixels (solid_image w h)) (60, 160, 60)"
    by (simp add: p) (simp add: solid_image_def rgb_of_solid')
  show "greenRatio (solid_image w h) = 1" "largestCompRatio (solid_image w h) = Some 1"
    using solid_green_features [OF r green_60_160_60] assms p by simp_all
qed

definition tiny_image :: ImageData where
  "tiny_image = \<lparr> data = [60, 160, 60, 255], width = 1, height = 1 \<rparr>"

lemma leaf_accepted: "validateLeafImage (Inr leaf_image) = Some accept"
proof -
  have "verdict (soft_rules leaf_image (4 / 5)) = accept"
    using leaf_votes by (simp add: accept_soft_rules score_holding)
  then show ?thesis
    using analyse_passed [OF leaf_passes] by (simp add: validateLeafImage_def)
qed

section \<open>The claims\<close>

text \<open>
  C1. For every decoded pixel grid that passes all the guards of Phase 1 and Phase 2, the
  validator returns, and its verdict is \<open>{valid: true}\<close> exactly when at least three of the
  five soft signals hold, the first of which always holds; equivalently, when at least two of
  signals 2 to 5 hold.
\<close>

theorem soft_majority:
  assumes "passes_guards img lcr"
  shows "\<exists>r. validateLeafImage (Inr img) = Some r
           \<and> (r = accept \<longleftrightarrow> 3 \<le> holding (signals img))
           \<and> (valid r \<longleftrightarrow> 3 \<le> holding (signals img))
           \<and> (3 \<le> holding (signals img) \<longleftrightarrow> 2 \<le> holding (tl (signals img)))"
proof -
  have "validateLeafImage (Inr img) = Some (verdict (soft_rules img lcr))"
    using analyse_passed [OF assms] by (simp add: validateLeafImage_def)
  moreover have "3 \<le> holding (signals img) \<longleftrightarrow> 2 \<le> holding (tl (signals img))"
    by (simp add: signals_def holding_def)
  ultimately show ?thesis
    by (simp add: valid_soft_rules accept_soft_rules score_holding)
qed

theorem soft_majority_witness:
  "passes_guards leaf_image (4 / 5) \<and> 3 \<le> holding (signals leaf_image)
   \<and> validateLeafImage (Inr leaf_image) = Some accept"
  using soft_majority [OF leaf_passes] leaf_passes leaf_votes by auto

text \<open>
  C2. When a guard of Phase 1 or Phase 2 fires, the validator returns \<open>{valid: false}\<close> with
  the reason of the first guard that fires, in the order: too few pixels, extreme aspect ratio,
  green ratio below 0.18, largest component ratio below 0.12, green ratio above 0.995; and
  the soft score has not been computed.
\<close>

theorem guards_short_circuit:
  "(pixels img < 8000 \<longrightarrow> short_circuits img ''Gambar terlalu kecil untuk dianalisis.'')
   \<and> (\<not> pixels img < 8000 \<and> aspect img > 7 \<longrightarrow>
        short_circuits img ''Rasio gambar terlalu ekstrem (tidak wajar).'')
   \<and> (\<not> pixels img < 8000 \<and> \<not> aspect img > 7 \<and> greenRatio img < 0.18 \<longrightarrow>
        short_circuits img ''Area daun terlalu kecil/Objek bukan daun.'')
   \<and> (\<not> pixels img < 8000 \<and> \<not> aspect img > 7 \<and> \<not> greenRatio img < 0.18
        \<and> largestCompRatio img = Some lcr \<and> lcr < 0.12 \<longrightarrow>
        short_circuits img ''Objek daun terlalu kecil/tersebar (bukan satu daun utama).'')
   \<and> (\<not> pixels img < 8000 \<and> \<not> aspect img > 7 \<and> \<not> greenRatio img < 0.18
        \<and> largestCompRatio img = Some lcr \<and> \<not> lcr < 0.12 \<and> greenRatio img > 0.995 \<longrightarrow>
        short_circuits img
          ''Gambar terlalu dominan satu warna (kemungkinan latar/ilustrasi).'')"
proof -
  obtain v where v: "largestCompRatio img = Some v"
    using largestCompRatio_value [of img] by blast
  show ?thesis
    unfolding short_circuits_iff using v by (auto simp: analyse_def pixels_def)
qed

theorem guards_short_circuit_witness:
  "short_circuits tiny_image ''Gambar terlalu kecil untuk dianalisis.''
   \<and> short_circuits (solid_image 256 32) ''Rasio gambar terlalu ekstrem (tidak wajar).''
   \<and> short_circuits red_image ''Area daun terlalu kecil/Objek bukan daun.''
   \<and> short_circuits fragmented_image
         ''Objek daun terlalu kecil/tersebar (bukan satu daun utama).''
   \<and> short_circuits (solid_image 256 256)
         ''Gambar terlalu dominan satu warna (kemungkinan latar/ilustrasi).''"
proof -
  have 1: "short_circuits tiny_image ''Gambar terlalu kecil untuk dianalisis.''"
    using guards_short_circuit [of tiny_image] by (simp add: tiny_image_def pixels_def)
  have "aspect (solid_image 256 32) = 8" by (simp add: aspect_def solid_image_def)
  then have 2: "short_circuits (solid_image 256 32) ''Rasio gambar terlalu ekstrem (tidak wajar).''"
    using guards_short_circuit [of "solid_image 256 32"] solid_image_facts(1) [of 256 32]
    by simp
  have 3: "short_circuits red_image ''Area daun terlalu kecil/Objek bukan daun.''"
    using guards_short_circuit [of red_image] by (simp add: red_facts)
  have 4: "short_circuits fragmented_image
      ''Objek daun terlalu kecil/tersebar (bukan satu daun utama).''"
    using guards_short_circuit [of fragmented_image "1 / 10"] by (simp add: fragmented_facts)
  have "aspect (solid_image 256 256) = 1" by (simp add: aspect_def solid_image_def)
  then have 5: "short_circuits (solid_image 256 256)
      ''Gambar terlalu dominan satu warna (kemungkinan latar/ilustrasi).''"
    using guards_short_circuit [of "solid_image 256 256" 1] solid_image_facts [of 256 256]
    by simp
  from 1 2 3 4 5 show ?thesis by blast
qed

text \<open>
  C3. For every green mask of \<open>w * h\<close> cells (with \<open>count\<close> the number of its set cells,
  as the per-pixel pass counts them), the labelling pass returns the size of the largest
  4-connected region of set cells, and the ratio it yields is that size divided by \<open>w * h\<close>
  (the pass runs on grids of at least 8000 pixels, so the divisor is positive). The right-hand
  side does not mention the order in which the fill visits cells. In particular a mask of 1000
  cells whose set cells are two blobs apart from each other, of 100 and 400 cells, gives
  exactly 0.4.
\<close>

theorem largest_component_ratio:
  assumes "length gm = w * h" and "count = length (filter (\<lambda>c. c \<noteq> 0) gm)"
  shows "label_pass w h gm count = Some (largest_region (cells w h gm))
         \<and> (0 < w * h \<longrightarrow>
              component_ratio w h gm count
                = Some (real (largest_region (cells w h gm)) / real (w * h)))
         \<and> (cells w h gm = A \<union> B \<and> blob A \<and> blob B \<and> apart A B
              \<and> card A = 100 \<and> card B = 400 \<and> w * h = 1000
            \<longrightarrow> component_ratio w h gm count = Some 0.4)"
proof -
  have lp: "label_pass w h gm count = Some (largest_region (cells w h gm))"
    by (rule label_pass_largest) (rule count_zero_cells [OF assms])
  then have general: "component_ratio w h gm count
      = Some (real (largest_region (cells w h gm)) / real (w * h))"
    by (simp add: component_ratio_def)
  have "component_ratio w h gm count = Some 0.4"
    if "cells w h gm = A \<union> B" "blob A" "blob B" "apart A B" "card A = 100" "card B = 400"
      "w * h = 1000"
  proof -
    have "largest_region (cells w h gm) = 400"
      using largest_two_blobs [OF that(2,3,4)] that(1,5,6) by simp
    then show ?thesis using general that(7) by simp
  qed
  then show ?thesis using lp general by blast
qed

theorem largest_component_ratio_witness:
  "length (replicate 400 1 @ replicate 100 0 @ replicate 100 1 @ replicate 400 (0::8 word)) = 50 * 20
   \<and> (500::nat) = length (filter (\<lambda>c. c \<noteq> 0)
         (replicate 400 1 @ replicate 100 0 @ replicate 100 1 @ replicate 400 (0::8 word)))
   \<and> cells 50 20 (replicate 400 1 @ replicate 100 0 @ replicate 100 1 @ replicate 400 0)
        = band 50 10 12 \<union> band 50 0 8
   \<and> blob (band 50 10 12) \<and> blob (band 50 0 8) \<and> apart (band 50 10 12) (band 50 0 8)
   \<and> card (band 50 10 12) = 100 \<and> card (band 50 0 8) = 400
   \<and> label_pass 50 20
        (replicate 400 1 @ replicate 100 0 @ replicate 100 1 @ replicate 400 0) 500 = Some 400
   \<and> component_ratio 50 20
        (replicate 400 1 @ replicate 100 0 @ replicate 100 1 @ replicate 400 0) 500 = Some 0.4"
proof -
  let ?gm = "replicate 400 1 @ replicate 100 0 @ replicate 100 1 @ replicate 400 (0::8 word)"
  have len: "length ?gm = 50 * 20" by simp
  have cnt: "(500::nat) = length (filter (\<lambda>c. c \<noteq> 0) ?gm)" by simp
  have c: "cells 50 20 ?gm = band 50 10 12 \<union> band 50 0 8"
    using cells_four_runs [of 50 8 2 2 8] by (simp add: Un_commute)
  have b: "blob (band 50 10 12)" "blob (band 50 0 8)" by (simp_all add: blob_band)
  have a: "apart (band 50 10 12) (band 50 0 8)"
    by (rule apart_sym) (simp add: apart_band)
  have k: "card (band 50 10 12) = 100" "card (band 50 0 8) = 400" by (simp_all add: card_band)
  have w: "(50::nat) * 20 = 1000" by simp
  note t = largest_component_ratio [OF len cnt, of "band 50 10 12" "band 50 0 8"]
  have r: "component_ratio 50 20 ?gm 500 = Some 0.4"
    using t c b a k w by blast
  have "largest_region (cells 50 20 ?gm) = 400"
    using largest_two_blobs [OF b a] c k by simp
  then have l: "label_pass 50 20 ?gm 500 = Some 400"
    using t by simp
  show ?thesis
    using len cnt c b a k r l by blast
qed

text \<open>
  C4. When all guards pass and fewer than three soft signals hold, the validator rejects with
  the first reason that applies in the order: fragmented leaf region, overly uniform colour,
  palette too limited, too many hard edges, texture too flat, and otherwise the generic reason.
\<close>

theorem soft_reject_reason:
  assumes "passes_guards img lcr" and "holding (signals img) < 3"
  shows "validateLeafImage (Inr img)
           = Some \<lparr> valid = False, reason = first_applicable (reason_priority img lcr) \<rparr>
         \<and> first_applicable (reason_priority img lcr) \<noteq> None"
proof -
  have "validateLeafImage (Inr img) = Some (verdict (soft_rules img lcr))"
    using analyse_passed [OF assms(1)] by (simp add: validateLeafImage_def)
  moreover have "first_applicable (reason_priority img lcr) \<noteq> None"
    by (simp add: first_applicable_def reason_priority_def)
  ultimately show ?thesis
    using soft_rules_rejects [of img lcr] assms(2) by (simp add: score_holding)
qed

theorem soft_reject_reason_witness:
  "passes_guards flat_image (1 / 2) \<and> holding (signals flat_image) < 3
   \<and> validateLeafImage (Inr flat_image)
       = Some \<lparr> valid = False,
                 reason = Some ''Gambar terlalu seragam seperti ilustrasi/solid color.'' \<rparr>"
proof -
  have "first_applicable (reason_priority flat_image (1 / 2))
      = Some ''Gambar terlalu seragam seperti ilustrasi/solid color.''"
    by (simp add: first_applicable_def reason_priority_def flat_uniform)
  then show ?thesis
    using soft_reject_reason [OF flat_passes flat_votes] flat_passes flat_votes by simp
qed

text \<open>
  C5. Every invocation returns a verdict: a thrown value of the decode is turned into a
  rejection whose reason is the message of the error (a fixed message when the thrown value
  is not an \<open>Error\<close>), and the analysis of a decoded image always returns. In every verdict
  the reason is present when \<open>valid\<close> is false and absent when it is true.
\<close>

theorem never_throws:
  "\<exists>v. validateLeafImage decoded = Some v
       \<and> (valid v \<longrightarrow> reason v = None)
       \<and> (\<not> valid v \<longrightarrow> reason v \<noteq> None)
       \<and> (\<forall>message. decoded = Inl (Error message) \<longrightarrow>
             v = \<lparr> valid = False, reason = Some message \<rparr>)
       \<and> (decoded = Inl NonError \<longrightarrow>
             v = \<lparr> valid = False, reason = Some ''Gagal memvalidasi gambar.'' \<rparr>)"
proof (cases decoded)
  case (Inl err)
  then show ?thesis by (cases err) (simp_all add: validateLeafImage_def reject_def)
next
  case (Inr img)
  obtain lcr where lcr: "largestCompRatio img = Some lcr"
    using largestCompRatio_value [of img] by blast
  have "\<exists>r. analyse img = Some r \<and> (valid (verdict r) \<longrightarrow> reason (verdict r) = None)
           \<and> (\<not> valid (verdict r) \<longrightarrow> reason (verdict r) \<noteq> None)"
    using lcr
    by (simp add: analyse_def guarded_def soft_rules_def Let_def reject_def accept_def)
  then show ?thesis using Inr by (auto simp: validateLeafImage_def)
qed

theorem never_throws_witness:
  "validateLeafImage (Inl (Error ''Gagal memuat gambar.''))
     = Some \<lparr> valid = False, reason = Some ''Gagal memuat gambar.'' \<rparr>
   \<and> validateLeafImage (Inl NonError)
     = Some \<lparr> valid = False, reason = Some ''Gagal memvalidasi gambar.'' \<rparr>
   \<and> validateLeafImage (Inr leaf_image) = Some \<lparr> valid = True, reason = None \<rparr>"
proof -
  have 1: "validateLeafImage (Inl (Error ''Gagal memuat gambar.''))
     = Some \<lparr> valid = False, reason = Some ''Gagal memuat gambar.'' \<rparr>"
    using never_throws [of "Inl (Error ''Gagal memuat gambar.'')"] by auto
  have 2: "validateLeafImage (Inl NonError)
     = Some \<lparr> valid = False, reason = Some ''Gagal memvalidasi gambar.'' \<rparr>"
    using never_throws [of "Inl NonError"] by auto
  have 3: "validateLeafImage (Inr leaf_image) = Some \<lparr> valid = True, reason = None \<rparr>"
    using never_throws [of "Inr leaf_image"] leaf_accepted by (auto simp: accept_def)
  from 1 2 3 show ?thesis by blast
qed

text \<open>
  C6. A decoded grid of fewer than 8000 pixels is rejected as too small, whatever its data.
\<close>

theorem too_small:
  assumes "w * h < 8000"
  shows "analyse \<lparr>data = d, width = w, height = h\<rparr>
           = Some (guarded ''Gambar terlalu kecil untuk dianalisis.'')
         \<and> validateLeafImage (Inr \<lparr>data = d, width = w, height = h\<rparr>)
           = Some \<lparr> valid = False, reason = Some ''Gambar terlalu kecil untuk dianalisis.'' \<rparr>"
  using assms by (simp add: analyse_def validateLeafImage_def guarded_def reject_def)

theorem too_small_witness:
  "(2::nat) * 3 < 8000
   \<and> analyse \<lparr>data = [60, 160, 60, 255], width = 2, height = 3\<rparr>
       = Some (guarded ''Gambar terlalu kecil untuk dianalisis.'')
   \<and> validateLeafImage (Inr \<lparr>data = [60, 160, 60, 255], width = 2, height = 3\<rparr>)
       = Some \<lparr> valid = False, reason = Some ''Gambar terlalu kecil untuk dianalisis.'' \<rparr>"
proof -
  have h: "(2::nat) * 3 < 8000" by simp
  show ?thesis using too_small [OF h, of "[60, 160, 60, 255]"] h by simp
qed

text \<open>
  C7 (amended). For a pixel grid of at least 8000 pixels whose aspect ratio is at most 7 and
  whose pixels all have the colour (60, 160, 60): every pixel satisfies the greenish predicate
  (hue 120 degrees, saturation 0.625, value 160/255), the green ratio is 1, the largest
  component ratio is 1, and the validator rejects through the single-colour guard. Without the
  bound on the aspect ratio the claim fails: a solid 256 by 32 grid has 8192 pixels and is
  rejected by the aspect guard of Phase 1.
\<close>

theorem solid_green_rejected:
  assumes "rgb_of (data img) = replicate (pixels img) (60, 160, 60)"
    and "8000 \<le> pixels img" and "\<not> aspect img > 7"
  shows "(\<forall>c \<in> set (rgb_of (data img)). green_px c)
         \<and> (case toHSV (byte 60) (byte 160) (byte 60) of
               (h, s, v) \<Rightarrow> h * 360 = 120 \<and> s = 0.625 \<and> v = 160 / 255)
         \<and> greenRatio img = 1 \<and> largestCompRatio img = Some 1
         \<and> short_circuits img
              ''Gambar terlalu dominan satu warna (kemungkinan latar/ilustrasi).''"
proof -
  have pos: "0 < pixels img" using assms(2) by simp
  note f = solid_green_features [OF assms(1) green_60_160_60 pos]
  have "\<forall>c \<in> set (rgb_of (data img)). green_px c"
    using assms(1) green_60_160_60 by simp
  moreover have "short_circuits img
      ''Gambar terlalu dominan satu warna (kemungkinan latar/ilustrasi).''"
    unfolding short_circuits_iff using assms(2,3) f
    by (simp add: analyse_def pixels_def)
  ultimately show ?thesis using f by (simp add: toHSV_leaf_green)
qed

theorem solid_green_rejected_witness:
  "rgb_of (data (solid_image 256 256)) = replicate (pixels (solid_image 256 256)) (60, 160, 60)
   \<and> 8000 \<le> pixels (solid_image 256 256) \<and> \<not> aspect (solid_image 256 256) > 7
   \<and> greenRatio (solid_image 256 256) = 1
   \<and> validateLeafImage (Inr (solid_image 256 256))
       = Some \<lparr> valid = False,
                 reason = Some ''Gambar terlalu dominan satu warna (kemungkinan latar/ilustrasi).'' \<rparr>"
proof -
  have r: "rgb_of (data (solid_image 256 256))
      = replicate (pixels (solid_image 256 256)) (60, 160, 60)"
    by (rule solid_image_facts) simp
  have p: "8000 \<le> pixels (solid_image 256 256)" by (simp add: solid_image_facts(1))
  have a: "\<not> aspect (solid_image 256 256) > 7" by (simp add: aspect_def solid_image_def)
  show ?thesis
    using solid_green_rejected [OF r p a] r p a by (simp add: short_circuits_def)
qed

theorem solid_green_counterexample:
  "8000 \<le> pixels (solid_image 256 32)
   \<and> rgb_of (data (solid_image 256 32)) = replicate (pixels (solid_image 256 32)) (60, 160, 60)
   \<and> validateLeafImage (Inr (solid_image 256 32))
       = Some \<lparr> valid = False, reason = Some ''Rasio gambar terlalu ekstrem (tidak wajar).'' \<rparr>
   \<and> validateLeafImage (Inr (solid_image 256 32))
       \<noteq> Some \<lparr> valid = False,
                 reason = Some ''Gambar terlalu dominan satu warna (kemungkinan latar/ilustrasi).'' \<rparr>"
proof -
  have r: "rgb_of (data (solid_image 256 32))
      = replicate (pixels (solid_image 256 32)) (60, 160, 60)"
    by (rule solid_image_facts) simp
  have p: "pixels (solid_image 256 32) = 8192" by (simp add: solid_image_facts(1))
  have "analyse (solid_image 256 32)
      = Some (guarded ''Rasio gambar terlalu ekstrem (tidak wajar).'')"
    by (simp add: analyse_def aspect_def solid_image_def)
  then have "validateLeafImage (Inr (solid_image 256 32))
      = Some \<lparr> valid = False, reason = Some ''Rasio gambar terlalu ekstrem (tidak wajar).'' \<rparr>"
    by (simp add: validateLeafImage_def guarded_def reject_def)
  then show ?thesis using r p by simp
qed

text \<open>
  C9. The rejection of Phase 3 for a fragmented leaf region is never returned: when the
  largest component ratio is below 0.12 the analysis has returned a rejection before the soft
  score is computed, and whenever the soft score is computed the ratio is at least 0.12.
\<close>

theorem fragmented_reason_unreachable:
  "validateLeafImage (Inr img)
     \<noteq> Some \<lparr> valid = False, reason = Some ''Objek daun terlalu kecil/tersebar.'' \<rparr>
   \<and> (\<forall>lcr r. largestCompRatio img = Some lcr \<and> lcr < 0.12 \<and> analyse img = Some r
        \<longrightarrow> soft_score r = None \<and> \<not> valid (verdict r))
   \<and> (\<forall>r. analyse img = Some r \<and> soft_score r \<noteq> None
        \<longrightarrow> (\<exists>lcr. largestCompRatio img = Some lcr \<and> \<not> lcr < 0.12))"
proof -
  obtain v where v: "largestCompRatio img = Some v"
    using largestCompRatio_value [of img] by blast
  have 1: "validateLeafImage (Inr img)
     \<noteq> Some \<lparr> valid = False, reason = Some ''Objek daun terlalu kecil/tersebar.'' \<rparr>"
    using v
    by (simp add: validateLeafImage_def analyse_def guarded_def reject_def accept_def
        soft_rules_def Let_def)
  have 2: "soft_score r = None \<and> \<not> valid (verdict r)"
    if "largestCompRatio img = Some lcr" "lcr < 0.12" "analyse img = Some r" for lcr r
    using that by (auto simp: analyse_def guarded_def reject_def split: if_splits)
  have 3: "\<exists>lcr. largestCompRatio img = Some lcr \<and> \<not> lcr < 0.12"
    if "analyse img = Some r" "soft_score r \<noteq> None" for r
    using phase3_reached [OF that] by (auto simp: passes_guards_def)
  from 1 2 3 show ?thesis by blast
qed

theorem fragmented_reason_unreachable_witness:
  "largestCompRatio fragmented_image = Some (1 / 10) \<and> (1 / 10 :: real) < 0.12
   \<and> analyse fragmented_image
       = Some (guarded ''Objek daun terlalu kecil/tersebar (bukan satu daun utama).'')
   \<and> soft_score (guarded ''Objek daun terlalu kecil/tersebar (bukan satu daun utama).'') = None
   \<and> analyse flat_image = Some (soft_rules flat_image (1 / 2))
   \<and> soft_score (soft_rules flat_image (1 / 2)) \<noteq> None
   \<and> largestCompRatio flat_image = Some (1 / 2) \<and> \<not> (1 / 2 :: real) < 0.12"
proof -
  have a: "analyse fragmented_image
       = Some (guarded ''Objek daun terlalu kecil/tersebar (bukan satu daun utama).'')"
    by (simp add: analyse_def fragmented_facts pixels_def [symmetric])
  have b: "analyse flat_image = Some (soft_rules flat_image (1 / 2))"
    by (rule analyse_passed [OF flat_passes])
  have c: "soft_score (soft_rules flat_image (1 / 2)) \<noteq> None"
    by (simp add: soft_rules_scored)
  show ?thesis
    using fragmented_reason_unreachable [of fragmented_image] fragmented_facts(4) a b c
      flat_largest
    by (simp add: guarded_def)
qed

text \<open>
  C10. Whenever the soft score is computed, the list of hue samples is not empty: the green
  ratio is at least 0.18, so the count of masked pixels is positive, and every masked pixel
  contributed one sample. Hence \<open>hueStdTooLow\<close> is defined, and the fourth signal holds
  exactly when it is false.
\<close>

theorem hue_samples_present:
  assumes "analyse img = Some r" and "soft_score r \<noteq> None"
  shows "\<not> greenRatio img < 0.18 \<and> 0 < greenCount (scanned img)
         \<and> length (hueValues (scanned img)) = greenCount (scanned img)
         \<and> hueValues (scanned img) \<noteq> []
         \<and> hueStdTooLow img \<noteq> None
         \<and> (signals img ! 3 \<longleftrightarrow> hueStdTooLow img = Some False)"
proof -
  obtain lcr where "passes_guards img lcr" using phase3_reached [OF assms] by blast
  then have g: "\<not> greenRatio img < 0.18" by (simp add: passes_guards_def)
  have pos: "0 < greenCount (scanned img)"
  proof (rule ccontr)
    assume "\<not> 0 < greenCount (scanned img)"
    then have "greenRatio img = 0" by (simp add: greenRatio_def)
    then show False using g by simp
  qed
  then have ne: "hueValues (scanned img) \<noteq> []"
    using scanned_hue_count [of img] by auto
  then have def: "hueStdTooLow img \<noteq> None" by (simp add: hueStdTooLow_def Let_def)
  have "signals img ! 3 \<longleftrightarrow> hueStdTooLow img = Some False"
    using def by (cases "hueStdTooLow img") (simp_all add: signals_def)
  then show ?thesis using g pos ne def scanned_hue_count [of img] by blast
qed

theorem hue_samples_present_witness:
  "analyse leaf_image = Some (soft_rules leaf_image (4 / 5))
   \<and> soft_score (soft_rules leaf_image (4 / 5)) \<noteq> None
   \<and> greenCount (scanned leaf_image) = 8000
   \<and> hueValues (scanned leaf_image) \<noteq> []
   \<and> hueStdTooLow leaf_image = Some False"
proof -
  have a: "analyse leaf_image = Some (soft_rules leaf_image (4 / 5))"
    by (rule analyse_passed [OF leaf_passes])
  have b: "soft_score (soft_rules leaf_image (4 / 5)) \<noteq> None"
    by (simp add: soft_rules_scored)
  show ?thesis
    using hue_samples_present [OF a b] a b leaf_greenCount leaf_hue by simp
qed

end
